theory Spec2Isabelle
  imports Main "HOL-Library.AList"
begin

section \<open>Text primitives\<close>

text \<open>
  Summaries, UIDs, day codes and form values are Python \<open>str\<close> values. They are modelled
  as \<open>string\<close>, a list of 8-bit characters, each read as the code point of that number
  (0 to 255). The text operations below are Python's \<open>str.isspace\<close>, \<open>str.lower\<close>,
  \<open>str.upper\<close>, \<open>str.strip\<close>, \<open>str.startswith\<close>, \<open>str.join\<close> and \<open>str.split\<close> on such
  text.
\<close>

text \<open>
  The code points below 256 for which \<open>str.isspace\<close> holds, which are the ones
  \<open>str.strip()\<close> removes: 9 to 13, 28 to 32, 133 (NEL) and 160 (no-break space).
\<close>

definition whitespace :: "char list" where
  "whitespace =
     [CHR 0x09, CHR 0x0A, CHR 0x0B, CHR 0x0C, CHR 0x0D, CHR 0x1C, CHR 0x1D, CHR 0x1E, CHR 0x1F,
      CHR 0x20, CHR 0x85, CHR 0xA0]"

definition py_isspace :: "char \<Rightarrow> bool" where
  "py_isspace c = (c \<in> set whitespace)"

text \<open>
  The letters below 256 that have two cases: A to Z, and the Latin-1 letters 0xC0 to 0xDE
  (without the multiplication sign 0xD7), each 32 below its lowercase form.
\<close>

definition upper_letters :: string where
  "upper_letters =
     ''ABCDEFGHIJKLMNOPQRSTUVWXYZ'' @
       [CHR 0xC0, CHR 0xC1, CHR 0xC2, CHR 0xC3, CHR 0xC4, CHR 0xC5, CHR 0xC6, CHR 0xC7,
        CHR 0xC8, CHR 0xC9, CHR 0xCA, CHR 0xCB, CHR 0xCC, CHR 0xCD, CHR 0xCE, CHR 0xCF,
        CHR 0xD0, CHR 0xD1, CHR 0xD2, CHR 0xD3, CHR 0xD4, CHR 0xD5, CHR 0xD6, CHR 0xD8,
        CHR 0xD9, CHR 0xDA, CHR 0xDB, CHR 0xDC, CHR 0xDD, CHR 0xDE]"

definition lower_letters :: string where
  "lower_letters =
     ''abcdefghijklmnopqrstuvwxyz'' @
       [CHR 0xE0, CHR 0xE1, CHR 0xE2, CHR 0xE3, CHR 0xE4, CHR 0xE5, CHR 0xE6, CHR 0xE7,
        CHR 0xE8, CHR 0xE9, CHR 0xEA, CHR 0xEB, CHR 0xEC, CHR 0xED, CHR 0xEE, CHR 0xEF,
        CHR 0xF0, CHR 0xF1, CHR 0xF2, CHR 0xF3, CHR 0xF4, CHR 0xF5, CHR 0xF6, CHR 0xF8,
        CHR 0xF9, CHR 0xFA, CHR 0xFB, CHR 0xFC, CHR 0xFD, CHR 0xFE]"

text \<open>
  \<open>str.upper\<close> is applied to the first two letters of weekday names only. Three code
  points below 256 have an uppercase form that is not one code point below 256 (0xB5,
  0xDF, 0xFF); \<open>upper_char\<close> leaves them as they are.
\<close>

definition lower_char :: "char \<Rightarrow> char" where
  "lower_char c = (case map_of (zip upper_letters lower_letters) c of None \<Rightarrow> c | Some l \<Rightarrow> l)"

definition upper_char :: "char \<Rightarrow> char" where
  "upper_char c = (case map_of (zip lower_letters upper_letters) c of None \<Rightarrow> c | Some l \<Rightarrow> l)"

definition py_lower :: "string \<Rightarrow> string" where
  "py_lower s = map lower_char s"

definition py_upper :: "string \<Rightarrow> string" where
  "py_upper s = map upper_char s"

definition py_strip :: "string \<Rightarrow> string" where
  "py_strip s = rev (dropWhile py_isspace (rev (dropWhile py_isspace s)))"

definition py_startswith :: "string \<Rightarrow> string \<Rightarrow> bool" where
  "py_startswith s p = (take (length p) s = p)"

fun py_join :: "string \<Rightarrow> string list \<Rightarrow> string" where
  "py_join sep [] = []"
| "py_join sep [x] = x"
| "py_join sep (x # y # ys) = x @ sep @ py_join sep (y # ys)"

text \<open>\<open>s.split("||")\<close>: left to right, separators do not overlap, empty tokens are kept.\<close>

fun split_bars :: "string \<Rightarrow> string list" where
  "split_bars [] = [[]]"
| "split_bars (c # cs) =
     (if c = CHR ''|'' \<and> cs \<noteq> [] \<and> hd cs = CHR ''|'' then [] # split_bars (tl cs)
      else (case split_bars cs of [] \<Rightarrow> [[c]] | t # ts \<Rightarrow> (c # t) # ts))"

section \<open>Dates\<close>

text \<open>
  A \<open>datetime.date\<close> is its proleptic Gregorian ordinal (\<open>date.toordinal()\<close>): 1 is
  0001-01-01, a Monday, and \<open>date.max\<close> (9999-12-31) is 3652059. Adding a \<open>timedelta\<close>
  raises \<open>OverflowError\<close> when the result leaves that range.
\<close>

type_synonym date = int

datatype error = OverflowError | KeyError | AttributeError

definition MINORDINAL :: int where
  "MINORDINAL = 1"

definition MAXORDINAL :: int where
  "MAXORDINAL = 3652059"

definition valid_date :: "date \<Rightarrow> bool" where
  "valid_date d = (MINORDINAL \<le> d \<and> d \<le> MAXORDINAL)"

definition date_add_days :: "date \<Rightarrow> int \<Rightarrow> error + date" where
  "date_add_days d n = (if 0 < d + n \<and> d + n \<le> MAXORDINAL then Inr (d + n) else Inl OverflowError)"

text \<open>\<open>d.strftime("%A")\<close>: \<open>d.weekday()\<close> is \<open>(d.toordinal() + 6) % 7\<close>, 0 for Monday.\<close>

definition weekday_names :: "string list" where
  "weekday_names =
     [''Monday'', ''Tuesday'', ''Wednesday'', ''Thursday'', ''Friday'', ''Saturday'', ''Sunday'']"

definition weekday_name :: "date \<Rightarrow> string" where
  "weekday_name d = weekday_names ! nat ((d + 6) mod 7)"

text \<open>\<open>weekday[:2].upper()\<close>, the two-letter code of a weekday name.\<close>

definition day_code :: "string \<Rightarrow> string" where
  "day_code day = py_upper (take 2 day)"

text \<open>
  A \<open>datetime\<close> carries its wall-clock date (\<open>.date()\<close>), the seconds since midnight and,
  when it is zone-aware, its UTC offset in seconds. A calendar value (\<open>.dt\<close>) is a
  \<open>datetime\<close> or a bare \<open>date\<close>.
\<close>

record datetime =
  dt_date :: date
  dt_seconds :: nat
  dt_utcoffset :: "int option"

datatype dtval = DateTimeVal datetime | DateVal date

text \<open>\<open>x.date() if isinstance(x, datetime) else x\<close>\<close>

definition plain_date :: "dtval \<Rightarrow> date" where
  "plain_date v = (case v of DateTimeVal d \<Rightarrow> dt_date d | DateVal d \<Rightarrow> d)"

section \<open>Helpers of \<open>main.py\<close>\<close>

subsection \<open>\<open>get_week_range_from_sunday\<close>\<close>

definition get_week_range_from_sunday :: "date \<Rightarrow> error + (date \<times> date)" where
  "get_week_range_from_sunday sunday =
     (case date_add_days sunday 1 of
        Inl e \<Rightarrow> Inl e
      | Inr monday \<Rightarrow>
          (case date_add_days monday 4 of
             Inl e \<Rightarrow> Inl e
           | Inr friday \<Rightarrow> Inr (monday, friday)))"

subsection \<open>\<open>describe_recurrence\<close>\<close>

text \<open>
  A recurrence rule is a dictionary of lists; \<open>rrule.get(K, [])\<close> is the field \<open>K\<close>, empty
  when the key is absent.
\<close>

record rrule =
  FREQ :: "string list"
  BYDAY :: "string list"
  UNTIL :: "dtval list"

definition day_map :: "(string \<times> string) list" where
  "day_map =
     [(''MO'', ''Monday''), (''TU'', ''Tuesday''), (''WE'', ''Wednesday''), (''TH'', ''Thursday''),
      (''FR'', ''Friday''), (''SA'', ''Saturday''), (''SU'', ''Sunday'')]"

text \<open>\<open>[day_map[d] for d in byday if d in day_map]\<close>\<close>

definition day_names_of :: "string list \<Rightarrow> string list" where
  "day_names_of byday = List.map_filter (map_of day_map) byday"

definition describe_recurrence :: "rrule \<Rightarrow> string" where
  "describe_recurrence r =
     (let freq = FREQ r; byday = BYDAY r in
      if freq \<noteq> [] \<and> hd freq = ''DAILY'' then ''Occurs every day''
      else if freq \<noteq> [] \<and> hd freq = ''WEEKLY'' \<and> byday \<noteq> [] then
        (let days = day_names_of byday in
         if days = [''Monday'', ''Tuesday'', ''Wednesday'', ''Thursday'', ''Friday'']
         then ''Occurs every weekday''
         else if length days = 1 then ''Occurs every '' @ hd days
         else ''Occurs every '' @ py_join '', '' days)
      else ''Recurring meeting'')"

section \<open>The v2 pipeline of \<open>main.py\<close>\<close>

subsection \<open>Calendar events, the attendance board and the candidate table\<close>

text \<open>
  A \<open>VEVENT\<close> component as the parser yields it: \<open>component.get(K)\<close> is \<open>None\<close> when the
  property is absent, the property's value when the event has one line of it, and a
  Python list of the values when the event has several lines of it. The calendar format
  (RFC 5545) allows SUMMARY, UID and DTSTART at most once in an event; RRULE and EXDATE
  may be repeated.

  The value of one \<open>RRULE\<close> line is a rule dictionary with at least one key; the value of
  one \<open>EXDATE\<close> line is an object whose \<open>dts\<close> attribute lists the excluded values. Both
  are truthy. A Python list is truthy when it is not empty, and has neither a \<open>get\<close>
  method taking a default nor a \<open>dts\<close> attribute: using it as a single value raises
  \<open>AttributeError\<close>.
\<close>

datatype 'a property = Single 'a | Repeated "'a list"

text \<open>\<open>if p:\<close> for a property that is present.\<close>

definition truthy :: "'a property \<Rightarrow> bool" where
  "truthy p = (case p of Single v \<Rightarrow> True | Repeated vs \<Rightarrow> vs \<noteq> [])"

record event =
  SUMMARY :: "string option"
  UID :: "string option"
  DTSTART :: "dtval option"
  RRULE :: "rrule property option"
  EXDATE :: "dtval list property option"

text \<open>
  \<open>events_by_day\<close> and \<open>recurring_candidates\<close> are insertion-ordered dictionaries,
  modelled as association lists: \<open>AList.update\<close> replaces the value of a present key in
  place and appends an absent key at the end, as a Python \<open>dict\<close> does; \<open>AList.delete\<close>
  is \<open>pop\<close>; \<open>map_of\<close> is lookup.
\<close>

type_synonym board = "(string \<times> string list) list"

record candidate =
  uid :: string
  summary :: string
  byday :: "string list"
  exdates :: "date set"
  recurrence_text :: string

type_synonym candidates = "(string \<times> candidate) list"

definition empty_board :: board where
  "empty_board =
     [(''Monday'', []), (''Tuesday'', []), (''Wednesday'', []), (''Thursday'', []), (''Friday'', [])]"

text \<open>
  \<open>if summary not in events_by_day[day]: events_by_day[day].append(summary)\<close>; indexing
  the dictionary with a day that is not a key raises \<open>KeyError\<close>.
\<close>

definition add_once :: "board \<Rightarrow> string \<Rightarrow> string \<Rightarrow> error + board" where
  "add_once events_by_day day s =
     (case map_of events_by_day day of
        None \<Rightarrow> Inl KeyError
      | Some meetings \<Rightarrow>
          if s \<notin> set meetings then Inr (AList.update day (meetings @ [s]) events_by_day)
          else Inr events_by_day)"

text \<open>Sequencing of steps that may raise: the first error ends the loop.\<close>

fun for_each :: "('a \<Rightarrow> 's \<Rightarrow> error + 's) \<Rightarrow> 'a list \<Rightarrow> 's \<Rightarrow> error + 's" where
  "for_each f [] s = Inr s"
| "for_each f (x # xs) s = (case f x s of Inl e \<Rightarrow> Inl e | Inr s' \<Rightarrow> for_each f xs s')"

subsection \<open>Event Classifier: the body of the loop over \<open>cal.walk("VEVENT")\<close>\<close>

text \<open>\<open>str(component.get(K, "")).strip()\<close>\<close>

definition text_of :: "string option \<Rightarrow> string" where
  "text_of v = py_strip (case v of None \<Rightarrow> [] | Some s \<Rightarrow> s)"

text \<open>
  The event's date in the local zone. \<open>to_local\<close> stands for the time-zone library's
  \<open>dt_val.astimezone(LOCAL_TZ).date()\<close> on a zone-aware value; a naive value is localized
  as it is and a bare date is taken at midnight, so both keep their date. The day name
  is \<open>dt.strftime("%A")\<close> of the localized value, the weekday of that same date.
\<close>

definition resolve_event_date :: "(datetime \<Rightarrow> date) \<Rightarrow> dtval \<Rightarrow> date" where
  "resolve_event_date to_local dt_val =
     (case dt_val of
        DateTimeVal d \<Rightarrow> (if dt_utcoffset d \<noteq> None then to_local d else dt_date d)
      | DateVal d \<Rightarrow> d)"

definition until_date_of :: "rrule \<Rightarrow> date option" where
  "until_date_of r = (case UNTIL r of [] \<Rightarrow> None | u # _ \<Rightarrow> Some (plain_date u))"

text \<open>
  \<open>exdates = set(); ex_prop = component.get("EXDATE"); if ex_prop: for d in ex_prop.dts:
  exdates.add(...)\<close>
\<close>

definition exdates_of :: "event \<Rightarrow> error + date set" where
  "exdates_of component =
     (case EXDATE component of
        None \<Rightarrow> Inr {}
      | Some ex_prop \<Rightarrow>
          if truthy ex_prop then
            (case ex_prop of
               Single dts \<Rightarrow> Inr (set (map plain_date dts))
             | Repeated props \<Rightarrow> Inl AttributeError)
          else Inr {})"

definition bucket_event :: "date \<Rightarrow> date \<Rightarrow> date \<Rightarrow> string \<Rightarrow> board \<Rightarrow> board" where
  "bucket_event week_start week_end event_date s events_by_day =
     (if week_start \<le> event_date \<and> event_date \<le> week_end then
        (let day_name = weekday_name event_date in
         case map_of events_by_day day_name of
           None \<Rightarrow> events_by_day
         | Some meetings \<Rightarrow>
             if s \<notin> set meetings then AList.update day_name (meetings @ [s]) events_by_day
             else events_by_day)
      else events_by_day)"

definition out_of_window :: "date \<Rightarrow> date \<Rightarrow> date \<Rightarrow> rrule \<Rightarrow> bool" where
  "out_of_window week_start week_end event_date r =
     (event_date > week_end \<or>
      (case until_date_of r of None \<Rightarrow> False | Some until_date \<Rightarrow> until_date < week_start))"

definition new_candidate :: "string \<Rightarrow> string \<Rightarrow> rrule \<Rightarrow> date set \<Rightarrow> candidate" where
  "new_candidate u s r ex =
     \<lparr>uid = u, summary = s, byday = BYDAY r, exdates = ex,
      recurrence_text = describe_recurrence r\<rparr>"

text \<open>
  The part of the loop body under \<open>if rrule and uid:\<close>, for a rule that is truthy and a
  UID that is not empty. A repeated \<open>RRULE\<close> raises at \<open>rrule.get("UNTIL", [])\<close>, a
  repeated \<open>EXDATE\<close> at \<open>ex_prop.dts\<close>, which is reached only when the rule's window
  overlaps the week.
\<close>

definition register_candidate ::
  "date \<Rightarrow> date \<Rightarrow> date \<Rightarrow> string \<Rightarrow> string \<Rightarrow> rrule property \<Rightarrow> event \<Rightarrow> candidates
   \<Rightarrow> error + candidates"
where
  "register_candidate week_start week_end event_date u s rule component recurring_candidates =
     (case rule of
        Repeated rules \<Rightarrow> Inl AttributeError
      | Single r \<Rightarrow>
          if out_of_window week_start week_end event_date r then Inr recurring_candidates
          else
            (case exdates_of component of
               Inl e \<Rightarrow> Inl e
             | Inr ex \<Rightarrow> Inr (AList.update u (new_candidate u s r ex) recurring_candidates)))"

definition classify_event ::
  "(datetime \<Rightarrow> date) \<Rightarrow> date \<Rightarrow> date \<Rightarrow> event \<Rightarrow> board \<times> candidates
   \<Rightarrow> error + board \<times> candidates"
where
  "classify_event to_local week_start week_end component st =
     (let s = text_of (SUMMARY component) in
      if s = [] \<or> py_startswith (py_lower s) ''canceled'' then Inr st
      else
        (let u = text_of (UID component); rule = RRULE component in
         case DTSTART component of
           None \<Rightarrow> Inr st
         | Some dtstart_raw \<Rightarrow>
             (let event_date = resolve_event_date to_local dtstart_raw;
                  events_by_day = bucket_event week_start week_end event_date s (fst st)
              in case rule of
                   None \<Rightarrow> Inr (events_by_day, snd st)
                 | Some p \<Rightarrow>
                     if truthy p \<and> u \<noteq> [] then
                       (case register_candidate week_start week_end event_date u s p component
                               (snd st) of
                          Inl e \<Rightarrow> Inl e
                        | Inr recurring_candidates \<Rightarrow> Inr (events_by_day, recurring_candidates))
                     else Inr (events_by_day, snd st))))"

definition classify ::
  "(datetime \<Rightarrow> date) \<Rightarrow> date \<Rightarrow> date \<Rightarrow> event list \<Rightarrow> error + board \<times> candidates"
where
  "classify to_local week_start week_end events =
     for_each (classify_event to_local week_start week_end) events (empty_board, [])"

subsection \<open>Coverage Reconciler\<close>

definition covered_codes :: "board \<Rightarrow> string \<Rightarrow> string set" where
  "covered_codes events_by_day s =
     set (map (\<lambda>(day, meetings). day_code day)
            (filter (\<lambda>(day, meetings). s \<in> set meetings) events_by_day))"

definition fully_covered :: "board \<Rightarrow> string \<Rightarrow> string list \<Rightarrow> bool" where
  "fully_covered events_by_day s bd = (set bd \<subseteq> covered_codes events_by_day s)"

text \<open>
  The body of \<open>for uid in list(recurring_candidates.keys())\<close>; the key is one of the
  table's own, so the lookup \<open>recurring_candidates[uid]\<close> finds it.
\<close>

definition reconcile_step :: "board \<Rightarrow> string \<Rightarrow> candidates \<Rightarrow> candidates" where
  "reconcile_step events_by_day u recurring_candidates =
     (case map_of recurring_candidates u of
        None \<Rightarrow> recurring_candidates
      | Some rec \<Rightarrow>
          if byday rec \<noteq> [] \<and> fully_covered events_by_day (summary rec) (byday rec)
          then AList.delete u recurring_candidates
          else recurring_candidates)"

definition reconcile :: "board \<Rightarrow> candidates \<Rightarrow> candidates" where
  "reconcile events_by_day recurring_candidates =
     fold (reconcile_step events_by_day) (map fst recurring_candidates) recurring_candidates"

subsection \<open>Recurrence Applier\<close>

definition apply_offset :: "date \<Rightarrow> candidate \<Rightarrow> int \<Rightarrow> board \<Rightarrow> error + board" where
  "apply_offset week_start rec offset events_by_day =
     (case date_add_days week_start offset of
        Inl e \<Rightarrow> Inl e
      | Inr current_date \<Rightarrow>
          (let weekday = weekday_name current_date in
           if day_code weekday \<in> set (byday rec) then
             if current_date \<notin> exdates rec then add_once events_by_day weekday (summary rec)
             else Inr events_by_day
           else Inr events_by_day))"

definition apply_uid :: "date \<Rightarrow> candidates \<Rightarrow> string \<Rightarrow> board \<Rightarrow> error + board" where
  "apply_uid week_start recurring_candidates u events_by_day =
     (case map_of recurring_candidates u of
        None \<Rightarrow> Inr events_by_day
      | Some rec \<Rightarrow> for_each (apply_offset week_start rec) [0, 1, 2, 3, 4] events_by_day)"

definition apply_selected :: "date \<Rightarrow> candidates \<Rightarrow> string \<Rightarrow> board \<Rightarrow> error + board" where
  "apply_selected week_start recurring_candidates include_recurring_uids events_by_day =
     (if include_recurring_uids \<noteq> [] then
        for_each (apply_uid week_start recurring_candidates)
          (split_bars include_recurring_uids) events_by_day
      else Inr events_by_day)"

subsection \<open>Response Assembler and the endpoint\<close>

record candidate_view =
  v_uid :: string
  v_summary :: string
  v_recurrence_text :: string
  v_byday :: "string list"

text \<open>
  \<open>week_range\<close> is the text \<open>f"{week_start} to {week_end}"\<close>; the response keeps the two
  dates it is printed from.
\<close>

record response =
  week_range :: "date \<times> date"
  timesheet_summary :: "(string \<times> string) list"
  recurring_candidates_field :: "candidate_view list option"

definition view_of :: "candidate \<Rightarrow> candidate_view" where
  "view_of v =
     \<lparr>v_uid = uid v, v_summary = summary v, v_recurrence_text = recurrence_text v,
      v_byday = byday v\<rparr>"

definition attended :: "string list \<Rightarrow> string" where
  "attended meetings = (if meetings \<noteq> [] then ''Attended '' @ py_join '', '' meetings else [])"

definition assemble :: "date \<Rightarrow> date \<Rightarrow> board \<Rightarrow> candidates \<Rightarrow> string \<Rightarrow> response" where
  "assemble week_start week_end events_by_day recurring_candidates finalize =
     \<lparr>week_range = (week_start, week_end),
      timesheet_summary = map (\<lambda>(day, meetings). (day, attended meetings)) events_by_day,
      recurring_candidates_field =
        (if py_lower finalize \<noteq> ''true'' then Some (map (\<lambda>(k, v). view_of v) recurring_candidates)
         else None)\<rparr>"

text \<open>
  The endpoint after the form's date text and the calendar bytes have been parsed:
  \<open>sunday_date\<close> is the anchor date, \<open>events\<close> the \<open>VEVENT\<close> components in document order.
\<close>

definition generate_timesheet_v2 ::
  "(datetime \<Rightarrow> date) \<Rightarrow> date \<Rightarrow> event list \<Rightarrow> string \<Rightarrow> string \<Rightarrow> error + response"
where
  "generate_timesheet_v2 to_local sunday_date events include_recurring_uids finalize =
     (case get_week_range_from_sunday sunday_date of
        Inl e \<Rightarrow> Inl e
      | Inr (week_start, week_end) \<Rightarrow>
          (case classify to_local week_start week_end events of
             Inl e \<Rightarrow> Inl e
           | Inr st \<Rightarrow>
               (let recurring_candidates = reconcile (fst st) (snd st)
                in case apply_selected week_start recurring_candidates include_recurring_uids
                          (fst st) of
                     Inl e \<Rightarrow> Inl e
                   | Inr events_by_day \<Rightarrow>
                       Inr (assemble week_start week_end events_by_day recurring_candidates
                              finalize))))"

section \<open>Properties of a board\<close>

text \<open>The invariant of the attendance board: no bucket holds a summary twice.\<close>

abbreviation no_repeats :: "board \<Rightarrow> bool" where
  "no_repeats b \<equiv> list_all (\<lambda>(day, meetings). distinct meetings) b"

text \<open>A later board keeps every day of an earlier one, and every entry of its bucket.\<close>

abbreviation grows :: "board \<Rightarrow> board \<Rightarrow> bool" where
  "grows b b' \<equiv>
     \<forall>d ms. map_of b d = Some ms \<longrightarrow> (\<exists>ms'. map_of b' d = Some ms' \<and> set ms \<subseteq> set ms')"

text \<open>A summary is in a day's bucket.\<close>

abbreviation holds :: "board \<Rightarrow> string \<Rightarrow> string \<Rightarrow> bool" where
  "holds b day s \<equiv> \<exists>meetings. map_of b day = Some meetings \<and> s \<in> set meetings"

section \<open>Example calendars\<close>

text \<open>
  The week of the anchor Sunday 2024-01-07 (ordinal 738892): Monday 2024-01-08 is 738893
  and Friday 2024-01-12 is 738897. The events carry bare dates, so the zone conversion
  (here \<open>dt_date\<close>) is never consulted.
\<close>

definition ex_canceled :: event where
  "ex_canceled =
     \<lparr>SUMMARY = Some ''Canceled: Standup'', UID = Some ''u0'', DTSTART = Some (DateVal 738895),
      RRULE = None, EXDATE = None\<rparr>"

definition ex_standup :: event where
  "ex_standup =
     \<lparr>SUMMARY = Some ''Standup'', UID = Some ''s1'', DTSTART = Some (DateVal 738895),
      RRULE = None, EXDATE = None\<rparr>"

text \<open>
  A weekly meeting on Mondays and Wednesdays that started a week before the window, with
  the window's Monday excluded.
\<close>

definition ex_sync :: event where
  "ex_sync =
     \<lparr>SUMMARY = Some ''Sync'', UID = Some ''u1'', DTSTART = Some (DateVal 738886),
      RRULE = Some (Single \<lparr>FREQ = [''WEEKLY''], BYDAY = [''MO'', ''WE''], UNTIL = []\<rparr>),
      EXDATE = Some (Single [DateVal 738893])\<rparr>"

text \<open>The same meeting, when the series itself starts on the window's Monday.\<close>

definition ex_sync_first :: event where
  "ex_sync_first = ex_sync\<lparr>DTSTART := Some (DateVal 738893)\<rparr>"

text \<open>The same meeting again, with two \<open>EXDATE\<close> lines: Monday and Wednesday of the window.\<close>

definition ex_sync_two_exdates :: event where
  "ex_sync_two_exdates =
     ex_sync\<lparr>EXDATE := Some (Repeated [[DateVal 738893], [DateVal 738895]])\<rparr>"

definition ex_sync_candidate :: candidate where
  "ex_sync_candidate =
     \<lparr>uid = ''u1'', summary = ''Sync'', byday = [''MO'', ''WE''], exdates = {738893},
      recurrence_text = ''Occurs every Monday, Wednesday''\<rparr>"

text \<open>A meeting every Saturday, with no excluded date.\<close>

definition ex_saturday_candidate :: candidate where
  "ex_saturday_candidate =
     \<lparr>uid = ''u2'', summary = ''Hike'', byday = [''SA''], exdates = {},
      recurrence_text = ''Occurs every Saturday''\<rparr>"

text \<open>
  Three boards: the empty board once the candidate of \<open>ex_sync\<close> is applied; the board once
  \<open>ex_sync_first\<close> is classified; and that board once its candidate is applied too.
\<close>

definition ex_wednesday_board :: board where
  "ex_wednesday_board =
     [(''Monday'', []), (''Tuesday'', []), (''Wednesday'', [''Sync'']), (''Thursday'', []),
      (''Friday'', [])]"

definition ex_monday_board :: board where
  "ex_monday_board =
     [(''Monday'', [''Sync'']), (''Tuesday'', []), (''Wednesday'', []), (''Thursday'', []),
      (''Friday'', [])]"

definition ex_sync_board :: board where
  "ex_sync_board =
     [(''Monday'', [''Sync'']), (''Tuesday'', []), (''Wednesday'', [''Sync'']), (''Thursday'', []),
      (''Friday'', [])]"

text \<open>The response to \<open>ex_sync\<close> alone, applied with \<open>include_recurring_uids = "u1"\<close>.\<close>

definition ex_sync_response :: response where
  "ex_sync_response =
     \<lparr>week_range = (738893, 738897),
      timesheet_summary =
        [(''Monday'', []), (''Tuesday'', []), (''Wednesday'', ''Attended Sync''),
         (''Thursday'', []), (''Friday'', [])],
      recurring_candidates_field =
        Some [\<lparr>v_uid = ''u1'', v_summary = ''Sync'',
               v_recurrence_text = ''Occurs every Monday, Wednesday'',
               v_byday = [''MO'', ''WE'']\<rparr>]\<rparr>"

section \<open>Unfolding the definitions on concrete inputs\<close>

lemmas text_defs =
  py_isspace_def whitespace_def lower_char_def upper_char_def upper_letters_def lower_letters_def
  py_lower_def py_upper_def py_strip_def py_startswith_def text_of_def day_code_def

lemmas date_defs =
  date_add_days_def MAXORDINAL_def MINORDINAL_def valid_date_def weekday_name_def weekday_names_def
  plain_date_def get_week_range_from_sunday_def

lemmas describe_defs = describe_recurrence_def day_names_of_def day_map_def List.map_filter_simps

lemmas classify_defs =
  classify_def classify_event_def register_candidate_def truthy_def bucket_event_def
  out_of_window_def until_date_of_def exdates_of_def new_candidate_def resolve_event_date_def
  empty_board_def Let_def

lemmas reconcile_defs = reconcile_def reconcile_step_def fully_covered_def covered_codes_def

lemmas apply_defs = apply_selected_def apply_uid_def apply_offset_def add_once_def

lemma ex_week: "get_week_range_from_sunday 738892 = Inr (738893, 738897)"
  by (simp add: date_defs)

lemma ex_sync_classified:
  "classify dt_date 738893 738897 [ex_sync] = Inr (empty_board, [(''u1'', ex_sync_candidate)])"
  by (simp add: ex_sync_def ex_sync_candidate_def classify_defs text_defs describe_defs date_defs)

lemma ex_sync_reconciled:
  "reconcile empty_board [(''u1'', ex_sync_candidate)] = [(''u1'', ex_sync_candidate)]"
  by (simp add: ex_sync_candidate_def reconcile_defs empty_board_def)

lemma ex_sync_applied:
  "apply_selected 738893 [(''u1'', ex_sync_candidate)] ''u1'' empty_board = Inr ex_wednesday_board"
  by (simp add: ex_sync_candidate_def ex_wednesday_board_def apply_defs empty_board_def date_defs
      text_defs)

lemma ex_sync_generated:
  "generate_timesheet_v2 dt_date 738892 [ex_sync] ''u1'' ''False'' = Inr ex_sync_response"
  unfolding generate_timesheet_v2_def ex_week Let_def ex_sync_classified prod.case fst_conv
    snd_conv ex_sync_reconciled ex_sync_applied sum.case
  by (simp add: assemble_def view_of_def attended_def ex_sync_candidate_def ex_sync_response_def
      ex_wednesday_board_def text_defs)

lemma ex_sync_first_classified:
  "classify dt_date 738893 738897 [ex_sync_first, ex_sync_first]
     = Inr (ex_monday_board, [(''u1'', ex_sync_candidate)])"
  by (simp add: ex_sync_first_def ex_sync_def ex_sync_candidate_def ex_monday_board_def
      classify_defs text_defs describe_defs date_defs)

lemma ex_sync_first_applied_twice:
  "apply_selected 738893 [(''u1'', ex_sync_candidate)] ''u1||u1'' ex_monday_board = Inr ex_sync_board"
  by (simp add: ex_sync_candidate_def ex_monday_board_def ex_sync_board_def apply_defs date_defs
      text_defs)

lemma ex_sync_first_alone_classified:
  "classify dt_date 738893 738897 [ex_sync_first]
     = Inr (ex_monday_board, [(''u1'', ex_sync_candidate)])"
  by (simp add: ex_sync_first_def ex_sync_def ex_sync_candidate_def ex_monday_board_def
      classify_defs text_defs describe_defs date_defs)

lemma ex_sync_first_reconciled:
  "reconcile ex_monday_board [(''u1'', ex_sync_candidate)] = [(''u1'', ex_sync_candidate)]"
  by (simp add: ex_sync_candidate_def ex_monday_board_def reconcile_defs text_defs)

lemma ex_sync_first_applied:
  "apply_selected 738893 [(''u1'', ex_sync_candidate)] ''u1'' ex_monday_board = Inr ex_sync_board"
  by (simp add: ex_sync_candidate_def ex_monday_board_def ex_sync_board_def apply_defs date_defs
      text_defs)

lemma ex_sync_applied_among_others:
  "apply_selected 738893 [(''u1'', ex_sync_candidate)] ''u1||nope||u1'' empty_board
     = Inr ex_wednesday_board"
  by (simp add: ex_sync_candidate_def ex_wednesday_board_def apply_defs empty_board_def date_defs
      text_defs)

lemma ex_saturday_raises:
  "apply_uid 738894 [(''u2'', ex_saturday_candidate)] ''u2'' empty_board = Inl KeyError"
  by (simp add: ex_saturday_candidate_def empty_board_def apply_defs date_defs text_defs)

section \<open>Loops that may raise\<close>

lemma for_each_append:
  "for_each f (xs @ ys) s = (case for_each f xs s of Inl e \<Rightarrow> Inl e | Inr s' \<Rightarrow> for_each f ys s')"
  by (induction xs arbitrary: s) (auto split: sum.splits)

lemma for_each_invariant:
  "(\<forall>x \<in> set xs. \<forall>s s'. P s \<longrightarrow> f x s = Inr s' \<longrightarrow> P s') \<Longrightarrow> P s \<Longrightarrow> for_each f xs s = Inr s'
   \<Longrightarrow> P s'"
proof (induction xs arbitrary: s)
  case Nil
  then show ?case by simp
next
  case (Cons x xs)
  from Cons.prems(3) obtain s1 where s1: "f x s = Inr s1" and r: "for_each f xs s1 = Inr s'"
    by (auto split: sum.splits)
  from Cons.prems(1) have "\<forall>s s'. P s \<longrightarrow> f x s = Inr s' \<longrightarrow> P s'" by (simp only: list.set ball_simps) blast
  with Cons.prems(2) s1 have p: "P s1" by blast
  from Cons.prems(1) have "\<forall>x \<in> set xs. \<forall>s s'. P s \<longrightarrow> f x s = Inr s' \<longrightarrow> P s'"
    by (meson list.set_intros(2))
  from Cons.IH [OF this p r] show ?case .
qed

lemma for_each_split:
  assumes "for_each f xs s = Inr s'" and "x \<in> set xs"
  shows "\<exists>post s1 s2. set post \<subseteq> set xs \<and> f x s1 = Inr s2 \<and> for_each f post s2 = Inr s'"
proof -
  from assms(2) obtain pre post where xs: "xs = pre @ x # post" by (auto dest: split_list)
  from assms(1) obtain s1 where "for_each f (x # post) s1 = Inr s'"
    unfolding xs for_each_append by (auto split: sum.splits)
  then obtain s2 where "f x s1 = Inr s2" and "for_each f post s2 = Inr s'"
    by (auto split: sum.splits)
  moreover have "set post \<subseteq> set xs" unfolding xs by auto
  ultimately show ?thesis by blast
qed

lemma for_each_raises:
  assumes "x \<in> set xs"
      and "\<forall>s. I s \<longrightarrow> f x s = Inl e"
      and "\<forall>y \<in> set xs. \<forall>s s'. I s \<longrightarrow> f y s = Inr s' \<longrightarrow> I s'"
      and "\<forall>y \<in> set xs. \<forall>s e'. I s \<longrightarrow> f y s = Inl e' \<longrightarrow> e' = e"
      and "I s"
  shows "for_each f xs s = Inl e"
  using assms
proof (induction xs arbitrary: s)
  case Nil
  then show ?case by simp
next
  case (Cons y ys)
  show ?case
  proof (cases "f y s")
    case (Inl e')
    from Cons.prems(4) have "\<forall>s e'. I s \<longrightarrow> f y s = Inl e' \<longrightarrow> e' = e"
      by (meson list.set_intros(1))
    with Cons.prems(5) Inl have "e' = e" by blast
    with Inl show ?thesis by simp
  next
    case (Inr s')
    from Cons.prems(3) have "\<forall>s s'. I s \<longrightarrow> f y s = Inr s' \<longrightarrow> I s'"
      by (meson list.set_intros(1))
    with Cons.prems(5) Inr have i: "I s'" by blast
    from Cons.prems(2,5) have "f x s = Inl e" by blast
    with Inr have "x \<noteq> y" by auto
    with Cons.prems(1) have m: "x \<in> set ys" by simp
    from Cons.prems(3) have p3: "\<forall>y \<in> set ys. \<forall>s s'. I s \<longrightarrow> f y s = Inr s' \<longrightarrow> I s'"
      by (meson list.set_intros(2))
    from Cons.prems(4) have p4: "\<forall>y \<in> set ys. \<forall>s e'. I s \<longrightarrow> f y s = Inl e' \<longrightarrow> e' = e"
      by (meson list.set_intros(2))
    from Cons.IH [OF m Cons.prems(2) p3 p4 i] Inr show ?thesis by simp
  qed
qed

section \<open>Properties of the text primitives\<close>

lemma isspace_lower:
  assumes "py_isspace c" shows "lower_char c = c"
proof -
  have "\<forall>c \<in> set whitespace. lower_char c = c"
    by (simp add: whitespace_def lower_char_def upper_letters_def lower_letters_def)
  with assms show ?thesis by (simp add: py_isspace_def)
qed

lemma canceled_letters_not_space: "\<forall>c \<in> set ''canceled''. \<not> py_isspace c"
  by (simp add: py_isspace_def whitespace_def)

lemma lower_canceled_not_space:
  assumes "lower_char c \<in> set ''canceled''" shows "\<not> py_isspace c"
proof
  assume b: "py_isspace c"
  then have "lower_char c = c" by (rule isspace_lower)
  with assms have "c \<in> set ''canceled''" by simp
  with canceled_letters_not_space b show False by blast
qed

lemma strip_keeps_prefix:
  assumes "s = p @ rest" and "p \<noteq> []" and "\<forall>c \<in> set p. \<not> py_isspace c"
  shows "\<exists>rest'. py_strip s = p @ rest'"
proof -
  from assms(2,3) have "\<not> py_isspace (hd p)" by (cases p) auto
  with assms(1,2) have l: "dropWhile py_isspace s = s" by (cases p) auto
  from assms(2,3) have "\<not> py_isspace (hd (rev p))" by (simp add: hd_rev)
  then have "dropWhile py_isspace (rev p) = rev p" using assms(2) by (cases "rev p") auto
  then have "\<exists>zs. dropWhile py_isspace (rev rest @ rev p) = zs @ rev p"
    by (simp add: dropWhile_append)
  then obtain zs where "dropWhile py_isspace (rev rest @ rev p) = zs @ rev p" ..
  with l assms(1) have "py_strip s = p @ rev zs" by (simp add: py_strip_def)
  then show ?thesis ..
qed

lemma strip_all_space:
  assumes "list_all py_isspace s" shows "py_strip s = []"
proof -
  from assms have "dropWhile py_isspace s = []"
    by (induction s) simp_all
  then show ?thesis by (simp add: py_strip_def del: dropWhile_eq_Nil_conv)
qed

lemma canceled_prefix_survives_strip:
  assumes "py_startswith (py_lower s) ''canceled''"
  shows "py_startswith (py_lower (py_strip s)) ''canceled''"
proof -
  let ?p = "take 8 s"
  have l8: "length ''canceled'' = 8" by simp
  from assms have "take 8 (map lower_char s) = ''canceled''"
    by (simp only: py_startswith_def py_lower_def l8)
  then have m: "map lower_char ?p = ''canceled''" by (simp only: take_map)
  then have "length (map lower_char ?p) = 8" by (simp only: l8)
  then have len: "length ?p = 8" by (simp only: length_map)
  then have ne: "?p \<noteq> []" by auto
  have "\<forall>c \<in> set ?p. lower_char c \<in> set (map lower_char ?p)" by simp
  then have "\<forall>c \<in> set ?p. lower_char c \<in> set ''canceled''" by (simp only: m)
  then have ns: "\<forall>c \<in> set ?p. \<not> py_isspace c"
    using lower_canceled_not_space by blast
  have "s = ?p @ drop 8 s" by simp
  from strip_keeps_prefix [OF this ne ns]
  obtain rest' where "py_strip s = ?p @ rest'" ..
  then have "take 8 (map lower_char (py_strip s)) = map lower_char ?p"
    using len by simp
  then show ?thesis by (simp only: py_startswith_def py_lower_def l8 m)
qed

section \<open>The Week Window Calculator\<close>

lemma mod7_cases:
  "(x::int) mod 7 = 0 \<or> x mod 7 = 1 \<or> x mod 7 = 2 \<or> x mod 7 = 3 \<or> x mod 7 = 4 \<or> x mod 7 = 5 \<or> x mod 7 = 6"
  by presburger

lemma weekday_name_mod: "(d + 6) mod 7 = k \<Longrightarrow> weekday_name d = weekday_names ! nat k"
  by (simp add: weekday_name_def)

lemma weekday_name_Sunday: "(weekday_name d = ''Sunday'') = (d mod 7 = 0)"
proof -
  have eq: "(d mod 7 = 0) = ((d + 6) mod 7 = 6)" by presburger
  from mod7_cases [of "d + 6"] show ?thesis
    unfolding eq by (elim disjE) (simp_all add: weekday_name_def weekday_names_def)
qed

lemma sunday_in_range:
  assumes "valid_date A" and "weekday_name A = ''Sunday''"
  shows "A + 5 \<le> MAXORDINAL"
proof -
  from assms(2) have "A mod 7 = 0" by (simp only: weekday_name_Sunday)
  moreover from assms(1) have "A \<le> 3652059" by (simp add: valid_date_def MAXORDINAL_def)
  ultimately have "A + 5 \<le> 3652059" by presburger
  then show ?thesis by (simp add: MAXORDINAL_def)
qed

text \<open>
  Claim C9, as amended. For every anchor date \<open>A\<close> of the date type that is at most
  9999-12-26 (\<open>A + 5 \<le> MAXORDINAL\<close>), the Week Window Calculator returns exactly the pair
  (\<open>A\<close> plus 1 day, \<open>A\<close> plus 5 days), so the end is 4 days after the start; for the five
  later anchors the date arithmetic raises \<open>OverflowError\<close>. The result depends on
  nothing but the ordinal of \<open>A\<close>: no check that \<open>A\<close> is a Sunday is made, and every anchor
  that is a Sunday is in the range where the function returns.
\<close>

theorem week_window:
  assumes "valid_date A"
  shows "get_week_range_from_sunday A =
           (if A + 5 \<le> MAXORDINAL then Inr (A + 1, A + 5) else Inl OverflowError)
         \<and> (weekday_name A = ''Sunday'' \<longrightarrow> A + 5 \<le> MAXORDINAL)"
  using assms sunday_in_range [of A]
  by (auto simp: get_week_range_from_sunday_def date_add_days_def valid_date_def MINORDINAL_def)

theorem week_window_witness:
  "valid_date 738892 \<and> weekday_name 738892 = ''Sunday''
   \<and> get_week_range_from_sunday 738892 = Inr (738893, 738897)"
proof -
  have v: "valid_date 738892" by (simp add: valid_date_def MINORDINAL_def MAXORDINAL_def)
  have s: "weekday_name 738892 = ''Sunday''" by (simp add: weekday_name_def weekday_names_def)
  from week_window [OF v] s have "738892 + 5 \<le> MAXORDINAL" by blast
  with week_window [OF v] v s show ?thesis by simp
qed

text \<open>
  The anchor 9999-12-31 (\<open>date.max\<close>) is a date, and the calculator raises on it: it is
  not total over all anchor dates.
\<close>

theorem week_window_overflow:
  "valid_date 3652059 \<and> get_week_range_from_sunday 3652059 = Inl OverflowError"
  by (simp add: valid_date_def MINORDINAL_def MAXORDINAL_def get_week_range_from_sunday_def
      date_add_days_def)

section \<open>The Recurrence Describer\<close>

lemma describe_recurrence_daily:
  "FREQ r = f # fs \<Longrightarrow> f = ''DAILY'' \<Longrightarrow> describe_recurrence r = ''Occurs every day''"
  by (simp add: describe_recurrence_def)

lemma describe_recurrence_weekly:
  assumes "FREQ r = ''WEEKLY'' # fs" and "BYDAY r \<noteq> []"
  shows "describe_recurrence r =
     (let days = day_names_of (BYDAY r) in
      if days = [''Monday'', ''Tuesday'', ''Wednesday'', ''Thursday'', ''Friday'']
      then ''Occurs every weekday''
      else ''Occurs every '' @ py_join '', '' days)"
proof -
  have "length days = 1 \<Longrightarrow> hd days = py_join '', '' days" for days :: "string list"
    by (cases days) (auto simp: length_Suc_conv)
  with assms show ?thesis
    by (auto simp: describe_recurrence_def Let_def)
qed

lemma describe_recurrence_fallback:
  assumes "FREQ r = [] \<or> (hd (FREQ r) \<noteq> ''DAILY'' \<and> (hd (FREQ r) \<noteq> ''WEEKLY'' \<or> BYDAY r = []))"
  shows "describe_recurrence r = ''Recurring meeting''"
  using assms by (auto simp: describe_recurrence_def)

text \<open>
  Claim C6 says the phrases are chosen, in this order, after unrecognized day codes have
  been dropped from the day list: DAILY, the Monday to Friday sequence, one day, several
  days, and ``Recurring meeting'' otherwise. The three lemmas above are what the function
  does. It departs from the claim when the rule is WEEKLY and every code of a non-empty
  BYDAY is unrecognized: the day list is then empty, neither one entry nor several, and
  the function returns the dangling phrase ``Occurs every '' where the claim's fallback
  is ``Recurring meeting'' (the phrase it does return for a WEEKLY rule with no BYDAY).
\<close>

theorem describe_recurrence_no_known_day:
  "describe_recurrence \<lparr>FREQ = [''WEEKLY''], BYDAY = [''1MO''], UNTIL = []\<rparr> = ''Occurs every ''"
  by (simp add: describe_recurrence_def day_names_of_def day_map_def List.map_filter_simps)

lemma describe_recurrence_scenario6:
  "describe_recurrence \<lparr>FREQ = [''WEEKLY''], BYDAY = [''TU''], UNTIL = []\<rparr> = ''Occurs every Tuesday''
   \<and> describe_recurrence \<lparr>FREQ = [''DAILY''], BYDAY = [], UNTIL = []\<rparr> = ''Occurs every day''
   \<and> describe_recurrence \<lparr>FREQ = [''MONTHLY''], BYDAY = [], UNTIL = []\<rparr> = ''Recurring meeting''"
  by (simp add: describe_recurrence_def day_names_of_def day_map_def List.map_filter_simps)

section \<open>The Event Classifier\<close>

lemma text_of_blank:
  "list_all py_isspace (case v of None \<Rightarrow> [] | Some s \<Rightarrow> s) \<Longrightarrow> text_of v = []"
  by (simp add: text_of_def strip_all_space)

lemma text_of_canceled:
  "py_startswith (py_lower (case v of None \<Rightarrow> [] | Some s \<Rightarrow> s)) ''canceled''
   \<Longrightarrow> py_startswith (py_lower (text_of v)) ''canceled''"
  by (simp add: text_of_def canceled_prefix_survives_strip)

lemma classify_event_skip:
  assumes "text_of (SUMMARY ev) = [] \<or> py_startswith (py_lower (text_of (SUMMARY ev))) ''canceled''
           \<or> DTSTART ev = None"
  shows "classify_event tz ws we ev st = Inr st"
  using assms by (auto simp: classify_event_def Let_def)

lemma classify_drop_event:
  assumes "\<And>st. classify_event tz ws we ev st = Inr st"
  shows "classify tz ws we (pre @ ev # post) = classify tz ws we (pre @ post)"
  using assms by (simp add: classify_def for_each_append split: sum.splits)

text \<open>
  Claim C5. An event whose SUMMARY is empty or whitespace only, or starts with
  ``canceled'' in any letter case, or that has no DTSTART, is skipped: the classifier's
  step raises nothing and leaves the board and the candidate table as they were, and the
  endpoint's result on a calendar that holds the event (a response or an error) is its
  result on the calendar without it, so the event adds no error of its own.
\<close>

theorem skipped_event_contributes_nothing:
  assumes "raw = (case SUMMARY ev of None \<Rightarrow> [] | Some s \<Rightarrow> s)"
      and "list_all py_isspace raw \<or> py_startswith (py_lower raw) ''canceled'' \<or> DTSTART ev = None"
  shows "classify_event tz ws we ev st = Inr st
         \<and> generate_timesheet_v2 tz A (pre @ ev # post) inc fin
           = generate_timesheet_v2 tz A (pre @ post) inc fin"
proof -
  from assms(2) have c: "text_of (SUMMARY ev) = []
      \<or> py_startswith (py_lower (text_of (SUMMARY ev))) ''canceled'' \<or> DTSTART ev = None"
    unfolding assms(1)
  proof (elim disjE)
    assume "list_all py_isspace (case SUMMARY ev of None \<Rightarrow> [] | Some s \<Rightarrow> s)"
    then show ?thesis by (simp add: text_of_blank)
  next
    assume "py_startswith (py_lower (case SUMMARY ev of None \<Rightarrow> [] | Some s \<Rightarrow> s)) ''canceled''"
    then show ?thesis by (simp add: text_of_canceled)
  next
    assume "DTSTART ev = None"
    then show ?thesis by simp
  qed
  then have i: "classify_event tz ws we ev st = Inr st" for ws we st
    by (rule classify_event_skip)
  then have d: "classify tz ws we (pre @ ev # post) = classify tz ws we (pre @ post)" for ws we
    by (rule classify_drop_event)
  have "generate_timesheet_v2 tz A (pre @ ev # post) inc fin
           = generate_timesheet_v2 tz A (pre @ post) inc fin"
    by (simp add: generate_timesheet_v2_def d cong: sum.case_cong prod.case_cong)
  with i show ?thesis by simp
qed

theorem skipped_event_witness:
  "classify_event dt_date 738893 738897 ex_canceled (empty_board, []) = Inr (empty_board, [])
   \<and> generate_timesheet_v2 dt_date 738892 [ex_canceled, ex_standup] [] ''false''
     = generate_timesheet_v2 dt_date 738892 [ex_standup] [] ''false''"
proof -
  have r: "''Canceled: Standup'' = (case SUMMARY ex_canceled of None \<Rightarrow> [] | Some s \<Rightarrow> s)"
    by (simp add: ex_canceled_def)
  have c: "list_all py_isspace ''Canceled: Standup''
           \<or> py_startswith (py_lower ''Canceled: Standup'') ''canceled''
           \<or> DTSTART ex_canceled = None"
    by (simp add: text_defs)
  from skipped_event_contributes_nothing [OF r c, where pre = "[]" and post = "[ex_standup]"]
  show ?thesis by simp
qed

text \<open>
  A summary made of no-break spaces only is whitespace only, and skipped.
\<close>

lemma no_break_space_summary_skipped:
  "classify_event tz ws we (ev\<lparr>SUMMARY := Some [CHR 0xA0, CHR 0xA0]\<rparr>) st = Inr st"
  by (rule classify_event_skip) (simp add: text_defs)

text \<open>
  What the classifier does with an event that passes the summary and start checks and
  carries one recurrence rule and a UID that is not empty once stripped. When the
  resolved start date is after the week's end, or the rule's first UNTIL value, as a
  plain date, is before the week's start, the candidate table is left as it was. Otherwise
  the EXDATE property is read: when it is absent or given on one line, the candidate made
  of the stripped summary, the rule's BYDAY list, the EXDATE values as plain dates and
  the text of \<open>describe_recurrence\<close> is registered under the UID; when it is given on
  several lines, the step raises \<open>AttributeError\<close> and nothing is registered.
\<close>

lemma candidate_registration:
  assumes "text_of (SUMMARY ev) = s" and "s \<noteq> []" and "\<not> py_startswith (py_lower s) ''canceled''"
      and "DTSTART ev = Some start" and "resolve_event_date tz start = event_date"
      and "RRULE ev = Some (Single r)" and "text_of (UID ev) = u" and "u \<noteq> []"
      and "overlaps = (event_date \<le> we \<and> (case UNTIL r of [] \<Rightarrow> True | x # xs \<Rightarrow> ws \<le> plain_date x))"
      and "b = bucket_event ws we event_date s (fst st)"
  shows "classify_event tz ws we ev st =
           (if overlaps then
              (case EXDATE ev of
                 None \<Rightarrow> Inr (b, AList.update u \<lparr>uid = u, summary = s, byday = BYDAY r,
                          exdates = {}, recurrence_text = describe_recurrence r\<rparr> (snd st))
               | Some (Single dts) \<Rightarrow>
                   Inr (b, AList.update u \<lparr>uid = u, summary = s, byday = BYDAY r,
                          exdates = plain_date ` set dts,
                          recurrence_text = describe_recurrence r\<rparr> (snd st))
               | Some (Repeated props) \<Rightarrow>
                   if props = [] then
                     Inr (b, AList.update u \<lparr>uid = u, summary = s, byday = BYDAY r,
                            exdates = {}, recurrence_text = describe_recurrence r\<rparr> (snd st))
                   else Inl AttributeError)
            else Inr (b, snd st))"
proof -
  have o: "out_of_window ws we event_date r = (\<not> overlaps)"
    using assms(9) by (auto simp: out_of_window_def until_date_of_def split: list.splits)
  have "classify_event tz ws we ev st =
          (case register_candidate ws we event_date u s (Single r) ev (snd st) of
             Inl e \<Rightarrow> Inl e
           | Inr c \<Rightarrow> Inr (b, c))"
    unfolding assms(10) using assms(1-8) by (simp add: classify_event_def Let_def truthy_def)
  with o show ?thesis
    by (simp add: register_candidate_def exdates_of_def new_candidate_def truthy_def
        split: option.splits property.splits)
qed

lemma repeated_rule_raises:
  assumes "text_of (SUMMARY ev) = s" and "s \<noteq> []" and "\<not> py_startswith (py_lower s) ''canceled''"
      and "DTSTART ev = Some start"
      and "RRULE ev = Some (Repeated rules)" and "rules \<noteq> []" and "text_of (UID ev) \<noteq> []"
  shows "classify_event tz ws we ev st = Inl AttributeError"
  using assms by (simp add: classify_event_def Let_def truthy_def register_candidate_def)

text \<open>
  Claim C4 says that such an event is registered, with its normalized EXDATE set,
  whenever its rule's window overlaps the week. The classifier departs from it on an
  event with two \<open>EXDATE\<close> lines: \<open>ex_sync_two_exdates\<close> passes the summary and start
  checks, carries one rule and a UID, started before the week's end and has no UNTIL,
  and the step raises \<open>AttributeError\<close> where the claim has the candidate registered.
\<close>

theorem two_exdate_lines_raise:
  "text_of (SUMMARY ex_sync_two_exdates) = ''Sync''
   \<and> DTSTART ex_sync_two_exdates = Some (DateVal 738886)
   \<and> RRULE ex_sync_two_exdates = Some (Single \<lparr>FREQ = [''WEEKLY''], BYDAY = [''MO'', ''WE''], UNTIL = []\<rparr>)
   \<and> text_of (UID ex_sync_two_exdates) = ''u1''
   \<and> EXDATE ex_sync_two_exdates = Some (Repeated [[DateVal 738893], [DateVal 738895]])
   \<and> classify_event dt_date 738893 738897 ex_sync_two_exdates (empty_board, []) = Inl AttributeError
   \<and> generate_timesheet_v2 dt_date 738892 [ex_sync_two_exdates] [] ''false'' = Inl AttributeError"
proof -
  have c: "classify_event dt_date 738893 738897 ex_sync_two_exdates (empty_board, [])
             = Inl AttributeError"
    by (simp add: ex_sync_two_exdates_def ex_sync_def classify_defs text_defs describe_defs
        date_defs)
  then have "classify dt_date 738893 738897 [ex_sync_two_exdates] = Inl AttributeError"
    by (simp add: classify_def)
  then have "generate_timesheet_v2 dt_date 738892 [ex_sync_two_exdates] [] ''false''
               = Inl AttributeError"
    by (simp add: generate_timesheet_v2_def ex_week)
  with c show ?thesis
    by (simp add: ex_sync_two_exdates_def ex_sync_def text_defs)
qed

section \<open>The Response Assembler\<close>

text \<open>A response is assembled only from a calendar whose classification returned.\<close>

lemma generated_classified:
  assumes "generate_timesheet_v2 tz A events inc fin = Inr resp"
      and "get_week_range_from_sunday A = Inr (ws, we)"
  shows "\<exists>st. classify tz ws we events = Inr st"
  using assms by (cases "classify tz ws we events") (simp_all add: generate_timesheet_v2_def)

text \<open>
  Claim C7. A response carries the \<open>recurring_candidates\<close> field exactly when the lowered
  \<open>finalize\<close> value differs from ``true''. The field then lists, in the table's order,
  every candidate left by the reconciliation of the classified calendar, each as its
  uid, summary, recurrence_text and byday; the list does not depend on
  \<open>include_recurring_uids\<close>, so applied candidates stay listed.
\<close>

theorem recurring_candidates_listing:
  assumes "generate_timesheet_v2 tz A events inc fin = Inr resp"
      and "get_week_range_from_sunday A = Inr (ws, we)"
      and "classify tz ws we events = Inr st"
      and "table = reconcile (fst st) (snd st)"
  shows "(recurring_candidates_field resp \<noteq> None) = (py_lower fin \<noteq> ''true'')
         \<and> (py_lower fin \<noteq> ''true'' \<longrightarrow>
              recurring_candidates_field resp =
                Some (map (\<lambda>(k, v). \<lparr>v_uid = uid v, v_summary = summary v,
                                     v_recurrence_text = recurrence_text v, v_byday = byday v\<rparr>)
                        table))"
  using assms
  by (auto simp: generate_timesheet_v2_def assemble_def view_of_def Let_def split: sum.splits)

theorem recurring_candidates_listing_witness:
  "generate_timesheet_v2 dt_date 738892 [ex_sync] ''u1'' ''False'' = Inr ex_sync_response
   \<and> py_lower ''False'' \<noteq> ''true''
   \<and> recurring_candidates_field ex_sync_response \<noteq> None"
proof -
  have f: "py_lower ''False'' \<noteq> ''true''" by (simp add: text_defs)
  from recurring_candidates_listing [OF ex_sync_generated ex_week ex_sync_classified refl]
  have "(recurring_candidates_field ex_sync_response \<noteq> None) = (py_lower ''False'' \<noteq> ''true'')"
    by (rule conjunct1)
  with f ex_sync_generated show ?thesis by simp
qed

section \<open>The Recurrence Applier: unknown UIDs\<close>

lemma apply_uid_unknown: "map_of cands u = None \<Longrightarrow> apply_uid ws cands u b = Inr b"
  by (simp add: apply_uid_def)

text \<open>
  Claim C8. A token of the \<open>include_recurring_uids\<close> list that is not a key of the
  candidate table leaves every weekday bucket of the board unchanged and raises nothing;
  the run over a token list that holds it ends as the run over the list without it, with
  the same board or the same error.
\<close>

theorem unknown_uid_skipped:
  assumes "map_of cands u = None"
  shows "apply_uid ws cands u b = Inr b
         \<and> for_each (apply_uid ws cands) (pre @ u # post) b
           = for_each (apply_uid ws cands) (pre @ post) b"
  using assms by (simp add: for_each_append apply_uid_unknown split: sum.splits)

theorem unknown_uid_skipped_witness:
  "apply_uid 738893 [(''u1'', ex_sync_candidate)] ''nope'' empty_board = Inr empty_board
   \<and> for_each (apply_uid 738893 [(''u1'', ex_sync_candidate)]) [''u1'', ''nope''] empty_board
     = for_each (apply_uid 738893 [(''u1'', ex_sync_candidate)]) [''u1''] empty_board"
proof -
  have "map_of [(''u1'', ex_sync_candidate)] ''nope'' = None" by simp
  from unknown_uid_skipped [OF this, where pre = "[''u1'']" and post = "[]"]
  show ?thesis by simp
qed

section \<open>No summary twice in a day\<close>

lemma list_all_update:
  "list_all P al \<Longrightarrow> P (k, v) \<Longrightarrow> list_all P (AList.update k v al)"
  by (induction al) auto

lemma list_all_map_of:
  "list_all P al \<Longrightarrow> map_of al k = Some v \<Longrightarrow> P (k, v)"
  by (induction al) (auto split: if_splits)

lemma add_once_no_repeats:
  assumes "no_repeats b" and "add_once b day s = Inr b'"
  shows "no_repeats b'"
proof (cases "map_of b day")
  case None
  with assms(2) show ?thesis by (simp add: add_once_def)
next
  case (Some ms)
  from list_all_map_of [OF assms(1) Some] have "distinct ms" by simp
  with Some assms show ?thesis
    by (auto simp: add_once_def list_all_update split: if_splits)
qed

lemma bucket_event_no_repeats:
  assumes "no_repeats b"
  shows "no_repeats (bucket_event ws we d s b)"
proof (cases "map_of b (weekday_name d)")
  case None
  with assms show ?thesis by (simp add: bucket_event_def)
next
  case (Some ms)
  from list_all_map_of [OF assms Some] have "distinct ms" by simp
  with Some assms show ?thesis
    by (auto simp: bucket_event_def list_all_update)
qed

lemma classify_event_board:
  assumes "classify_event tz ws we ev st = Inr st'"
  shows "fst st' = fst st \<or> (\<exists>d s. fst st' = bucket_event ws we d s (fst st))"
proof (cases "text_of (SUMMARY ev) = [] \<or> py_startswith (py_lower (text_of (SUMMARY ev))) ''canceled''
              \<or> DTSTART ev = None")
  case True
  then have "classify_event tz ws we ev st = Inr st" by (rule classify_event_skip)
  with assms show ?thesis by simp
next
  case False
  then obtain start where start: "DTSTART ev = Some start" by auto
  let ?b = "bucket_event ws we (resolve_event_date tz start) (text_of (SUMMARY ev)) (fst st)"
  from False start assms have "fst st' = ?b"
    by (auto simp: classify_event_def Let_def split: if_splits option.splits sum.splits)
  then show ?thesis by blast
qed

lemma classify_event_no_repeats:
  assumes "no_repeats (fst st)" and "classify_event tz ws we ev st = Inr st'"
  shows "no_repeats (fst st')"
proof -
  from classify_event_board [OF assms(2)] show ?thesis
  proof
    assume "fst st' = fst st"
    with assms(1) show ?thesis by simp
  next
    assume "\<exists>d s. fst st' = bucket_event ws we d s (fst st)"
    then obtain d s where "fst st' = bucket_event ws we d s (fst st)" by blast
    with bucket_event_no_repeats [OF assms(1)] show ?thesis by simp
  qed
qed

lemma classify_no_repeats:
  assumes "classify tz ws we evs = Inr st"
  shows "no_repeats (fst st)"
proof -
  have "\<forall>ev \<in> set evs. \<forall>s s'. no_repeats (fst s) \<longrightarrow> classify_event tz ws we ev s = Inr s'
          \<longrightarrow> no_repeats (fst s')"
    using classify_event_no_repeats by blast
  moreover have "no_repeats (fst (empty_board, []))" by (simp add: empty_board_def)
  ultimately show ?thesis using assms unfolding classify_def
    by (rule for_each_invariant [where P = "\<lambda>s. no_repeats (fst s)"])
qed

lemma apply_offset_cases:
  assumes "apply_offset ws rec k b = Inr b'"
  shows "b' = b \<or> add_once b (weekday_name (ws + k)) (summary rec) = Inr b'"
proof -
  from assms obtain d where d: "date_add_days ws k = Inr d"
    by (cases "date_add_days ws k") (simp_all add: apply_offset_def)
  then have "d = ws + k" by (simp add: date_add_days_def split: if_splits)
  with d assms show ?thesis
    by (simp add: apply_offset_def Let_def split: if_splits)
qed

lemma apply_offset_no_repeats:
  "no_repeats b \<Longrightarrow> apply_offset ws rec k b = Inr b' \<Longrightarrow> no_repeats b'"
  using apply_offset_cases add_once_no_repeats by blast

lemma apply_uid_no_repeats:
  assumes "no_repeats b" and "apply_uid ws cands u b = Inr b'"
  shows "no_repeats b'"
proof (cases "map_of cands u")
  case None
  with assms show ?thesis by (simp add: apply_uid_def)
next
  case (Some rec)
  with assms(2) have "for_each (apply_offset ws rec) [0, 1, 2, 3, 4] b = Inr b'"
    by (simp add: apply_uid_def)
  moreover have "\<forall>k \<in> set [0, 1, 2, 3, 4]. \<forall>s s'. no_repeats s \<longrightarrow> apply_offset ws rec k s = Inr s'
      \<longrightarrow> no_repeats s'"
    using apply_offset_no_repeats by blast
  ultimately show ?thesis using assms(1) for_each_invariant [where P = no_repeats] by blast
qed

lemma apply_selected_no_repeats:
  assumes "no_repeats b" and "apply_selected ws cands inc b = Inr b'"
  shows "no_repeats b'"
proof (cases "inc = []")
  case True
  with assms show ?thesis by (simp add: apply_selected_def)
next
  case False
  with assms(2) have "for_each (apply_uid ws cands) (split_bars inc) b = Inr b'"
    by (simp add: apply_selected_def)
  moreover have "\<forall>u \<in> set (split_bars inc). \<forall>s s'. no_repeats s \<longrightarrow> apply_uid ws cands u s = Inr s'
      \<longrightarrow> no_repeats s'"
    using apply_uid_no_repeats by blast
  ultimately show ?thesis using assms(1) for_each_invariant [where P = no_repeats] by blast
qed

text \<open>
  Claim C3. In the v2 pipeline every weekday bucket of the board holds each summary at
  most once, after classification and after applying any selection of UIDs (whatever
  the candidate table and the token list): neither the classifier nor the applier
  appends a summary to a bucket that already holds it. (A classification or an
  application that raises leaves no board.)
\<close>

theorem no_summary_twice:
  assumes "classify tz ws we events = Inr st"
  shows "(\<forall>(day, meetings) \<in> set (fst st). distinct meetings)
         \<and> (\<forall>b'. apply_selected ws cands inc (fst st) = Inr b'
                 \<longrightarrow> (\<forall>(day, meetings) \<in> set b'. distinct meetings))"
proof (intro conjI allI impI)
  show "\<forall>(day, meetings) \<in> set (fst st). distinct meetings"
    using classify_no_repeats [OF assms] by (simp only: list_all_iff)
next
  fix b'
  assume "apply_selected ws cands inc (fst st) = Inr b'"
  from apply_selected_no_repeats [OF classify_no_repeats [OF assms] this]
  show "\<forall>(day, meetings) \<in> set b'. distinct meetings" by (simp only: list_all_iff)
qed

theorem no_summary_twice_witness:
  "classify dt_date 738893 738897 [ex_sync_first, ex_sync_first]
     = Inr (ex_monday_board, [(''u1'', ex_sync_candidate)])
   \<and> apply_selected 738893 [(''u1'', ex_sync_candidate)] ''u1||u1'' ex_monday_board
     = Inr ex_sync_board
   \<and> list_all (\<lambda>(day, meetings). distinct meetings) ex_sync_board"
proof -
  have a: "apply_selected 738893 [(''u1'', ex_sync_candidate)] ''u1||u1''
             (fst (ex_monday_board, [(''u1'', ex_sync_candidate)])) = Inr ex_sync_board"
    by (simp only: fst_conv ex_sync_first_applied_twice)
  from no_summary_twice [OF ex_sync_first_classified, of "[(''u1'', ex_sync_candidate)]" "''u1||u1''"] a
  have "\<forall>(day, meetings) \<in> set ex_sync_board. distinct meetings" by blast
  then have "list_all (\<lambda>(day, meetings). distinct meetings) ex_sync_board"
    by (simp only: list_all_iff)
  with ex_sync_first_classified ex_sync_first_applied_twice show ?thesis by (intro conjI)
qed

section \<open>The Coverage Reconciler\<close>

lemma covered_codes_eq:
  "covered_codes b s = {day_code day | day meetings. (day, meetings) \<in> set b \<and> s \<in> set meetings}"
  by (auto simp: covered_codes_def image_iff)

lemma reconcile_step_filter:
  assumes "distinct (map fst c)"
  shows "reconcile_step b k c =
         filter (\<lambda>(u, rec). \<not> (u = k \<and> byday rec \<noteq> [] \<and> fully_covered b (summary rec) (byday rec))) c"
proof (cases "map_of c k")
  case None
  then have "k \<notin> fst ` set c" by (simp add: map_of_eq_None_iff)
  then have "filter (\<lambda>(u, rec). \<not> (u = k \<and> byday rec \<noteq> [] \<and> fully_covered b (summary rec) (byday rec))) c = c"
    by (intro filter_True) force
  with None show ?thesis by (simp add: reconcile_step_def)
next
  case (Some rec)
  have key: "(u, r) \<in> set c \<Longrightarrow> u = k \<Longrightarrow> r = rec" for u r
    using assms Some by (metis map_of_is_SomeI option.inject)
  show ?thesis
  proof (cases "byday rec \<noteq> [] \<and> fully_covered b (summary rec) (byday rec)")
    case True
    have "reconcile_step b k c = AList.delete k c"
      using Some True by (simp add: reconcile_step_def)
    also have "\<dots> = filter (\<lambda>(u, r). \<not> (u = k \<and> byday r \<noteq> [] \<and> fully_covered b (summary r) (byday r))) c"
      unfolding AList.delete_eq by (rule filter_cong) (use key True in auto)
    finally show ?thesis .
  next
    case False
    have "filter (\<lambda>(u, r). \<not> (u = k \<and> byday r \<noteq> [] \<and> fully_covered b (summary r) (byday r))) c = c"
      by (intro filter_True) (use key False in auto)
    moreover have "reconcile_step b k c = c"
      using Some False by (auto simp: reconcile_step_def)
    ultimately show ?thesis by simp
  qed
qed

lemma fold_reconcile_filter:
  "distinct (map fst c) \<Longrightarrow>
   fold (reconcile_step b) ks c =
   filter (\<lambda>(u, rec). \<not> (u \<in> set ks \<and> byday rec \<noteq> [] \<and> fully_covered b (summary rec) (byday rec))) c"
proof (induction ks arbitrary: c)
  case Nil
  then show ?case by simp
next
  case (Cons k ks)
  let ?c = "reconcile_step b k c"
  have st: "?c = filter (\<lambda>(u, rec). \<not> (u = k \<and> byday rec \<noteq> [] \<and> fully_covered b (summary rec) (byday rec))) c"
    using Cons.prems by (rule reconcile_step_filter)
  then have "distinct (map fst ?c)" using Cons.prems by (simp add: distinct_map_filter)
  from Cons.IH [OF this] have "fold (reconcile_step b) (k # ks) c =
    filter (\<lambda>(u, rec). \<not> (u \<in> set ks \<and> byday rec \<noteq> [] \<and> fully_covered b (summary rec) (byday rec))) ?c"
    by simp
  also have "\<dots> = filter (\<lambda>(u, rec). \<not> (u \<in> set (k # ks) \<and> byday rec \<noteq> [] \<and> fully_covered b (summary rec) (byday rec))) c"
    unfolding st filter_filter by (rule filter_cong) auto
  finally show ?case .
qed

lemma reconcile_filter:
  assumes "distinct (map fst c)"
  shows "reconcile b c =
         filter (\<lambda>(u, rec). \<not> (byday rec \<noteq> [] \<and> fully_covered b (summary rec) (byday rec))) c"
proof -
  have "reconcile b c = filter (\<lambda>(u, rec). \<not> (u \<in> set (map fst c) \<and> byday rec \<noteq> []
      \<and> fully_covered b (summary rec) (byday rec))) c"
    unfolding reconcile_def using assms by (rule fold_reconcile_filter)
  also have "\<dots> = filter (\<lambda>(u, rec). \<not> (byday rec \<noteq> [] \<and> fully_covered b (summary rec) (byday rec))) c"
    by (rule filter_cong) force+
  finally show ?thesis .
qed

lemma classify_event_distinct_keys:
  assumes "distinct (map fst (snd st))" and "classify_event tz ws we ev st = Inr st'"
  shows "distinct (map fst (snd st'))"
  using assms
  by (auto simp: classify_event_def register_candidate_def Let_def distinct_update
      split: if_splits option.splits sum.splits property.splits)

lemma classify_distinct_keys:
  assumes "classify tz ws we evs = Inr st"
  shows "distinct (map fst (snd st))"
proof -
  have "\<forall>ev \<in> set evs. \<forall>s s'. distinct (map fst (snd s)) \<longrightarrow> classify_event tz ws we ev s = Inr s'
          \<longrightarrow> distinct (map fst (snd s'))"
    using classify_event_distinct_keys by blast
  moreover have "distinct (map fst (snd (empty_board, [])))" by simp
  ultimately show ?thesis using assms unfolding classify_def
    by (rule for_each_invariant [where P = "\<lambda>s. distinct (map fst (snd s))"])
qed

text \<open>
  Claim C1. For a candidate of the table (a dictionary: its keys are distinct), let the
  covered codes be the uppercased first two letters of the names of the days in whose
  bucket the candidate's summary occurs (exact text match). The Coverage Reconciler
  removes the candidate if and only if its BYDAY is not empty and every code of it is a
  covered code; a candidate that is not removed stays as it was, and a candidate whose
  BYDAY is empty is never removed.
\<close>

theorem coverage_subset_law:
  assumes "distinct (map fst table)" and "map_of table u = Some rec"
      and "codes = {py_upper (take 2 day) | day meetings.
                      (day, meetings) \<in> set b \<and> summary rec \<in> set meetings}"
  shows "(map_of (reconcile b table) u = None) = (byday rec \<noteq> [] \<and> set (byday rec) \<subseteq> codes)
         \<and> (map_of (reconcile b table) u \<noteq> None \<longrightarrow> map_of (reconcile b table) u = Some rec)
         \<and> (byday rec = [] \<longrightarrow> map_of (reconcile b table) u = Some rec)"
proof -
  let ?drop = "\<lambda>r. byday r \<noteq> [] \<and> fully_covered b (summary r) (byday r)"
  have f: "reconcile b table = filter (\<lambda>(u, r). \<not> ?drop r) table"
    using assms(1) by (rule reconcile_filter)
  have c: "fully_covered b (summary rec) (byday rec) = (set (byday rec) \<subseteq> codes)"
    by (simp add: fully_covered_def covered_codes_eq assms(3) day_code_def)
  have d: "distinct (map fst (reconcile b table))"
    unfolding f using assms(1) by (simp add: distinct_map_filter)
  have m: "(u, rec) \<in> set table" using assms(2) by (rule map_of_SomeD)
  show ?thesis
  proof (cases "?drop rec")
    case True
    have "u \<notin> fst ` set (reconcile b table)"
    proof
      assume "u \<in> fst ` set (reconcile b table)"
      then obtain r where "(u, r) \<in> set table" and n: "\<not> ?drop r" unfolding f by auto
      with assms(1,2) have "r = rec" by (metis map_of_is_SomeI option.inject)
      with n True show False by simp
    qed
    then have "map_of (reconcile b table) u = None" by (simp add: map_of_eq_None_iff)
    with True c show ?thesis by simp
  next
    case False
    with m have "(u, rec) \<in> set (reconcile b table)" unfolding f by simp
    with d have "map_of (reconcile b table) u = Some rec" by (rule map_of_is_SomeI)
    with False c show ?thesis by auto
  qed
qed

theorem coverage_subset_law_witness:
  "map_of (reconcile ex_sync_board [(''u1'', ex_sync_candidate)]) ''u1'' = None"
proof -
  let ?codes = "{py_upper (take 2 day) | day meetings.
                   (day, meetings) \<in> set ex_sync_board \<and> summary ex_sync_candidate \<in> set meetings}"
  have d: "distinct (map fst [(''u1'', ex_sync_candidate)])" by simp
  have m: "map_of [(''u1'', ex_sync_candidate)] ''u1'' = Some ex_sync_candidate" by simp
  have "''MO'' = py_upper (take 2 ''Monday'') \<and> (''Monday'', [''Sync'']) \<in> set ex_sync_board
        \<and> summary ex_sync_candidate \<in> set [''Sync'']"
    by (simp add: ex_sync_board_def ex_sync_candidate_def text_defs)
  then have mo: "''MO'' \<in> ?codes" by blast
  have "''WE'' = py_upper (take 2 ''Wednesday'') \<and> (''Wednesday'', [''Sync'']) \<in> set ex_sync_board
        \<and> summary ex_sync_candidate \<in> set [''Sync'']"
    by (simp add: ex_sync_board_def ex_sync_candidate_def text_defs)
  then have we: "''WE'' \<in> ?codes" by blast
  have b: "byday ex_sync_candidate = [''MO'', ''WE'']" by (simp add: ex_sync_candidate_def)
  from mo we have "byday ex_sync_candidate \<noteq> [] \<and> set (byday ex_sync_candidate) \<subseteq> ?codes"
    unfolding b by simp
  with coverage_subset_law [OF d m refl, of ex_sync_board] show ?thesis by blast
qed


section \<open>The Recurrence Applier: placement and exclusion\<close>

lemma weekday_name_eq_iff: "(weekday_name d1 = weekday_name d2) = ((d1 - d2) mod 7 = 0)"
proof -
  have dis: "distinct weekday_names" by (simp add: weekday_names_def)
  have len: "length weekday_names = 7" by (simp add: weekday_names_def)
  have i1: "nat ((d1 + 6) mod 7) < length weekday_names" unfolding len by simp
  have i2: "nat ((d2 + 6) mod 7) < length weekday_names" unfolding len by simp
  have "(weekday_name d1 = weekday_name d2) = (nat ((d1 + 6) mod 7) = nat ((d2 + 6) mod 7))"
    unfolding weekday_name_def by (rule nth_eq_iff_index_eq [OF dis i1 i2])
  also have "\<dots> = ((d1 + 6) mod 7 = (d2 + 6) mod 7)"
    by (rule eq_nat_nat_iff) simp_all
  also have "\<dots> = (7 dvd (d1 + 6) - (d2 + 6))" by (rule mod_eq_dvd_iff)
  also have "\<dots> = ((d1 - d2) mod 7 = 0)" by (simp add: mod_eq_0_iff_dvd)
  finally show ?thesis .
qed

lemma add_once_map_of:
  assumes "add_once b day s = Inr b'"
  shows "\<exists>ms. map_of b day = Some ms
              \<and> map_of b' = (map_of b)(day \<mapsto> (if s \<in> set ms then ms else ms @ [s]))"
proof (cases "map_of b day")
  case None
  with assms show ?thesis by (simp add: add_once_def)
next
  case (Some ms)
  show ?thesis
  proof (cases "s \<in> set ms")
    case True
    with Some assms have "b' = b" by (simp add: add_once_def)
    moreover from Some have "(map_of b)(day \<mapsto> ms) = map_of b" by (rule map_upd_triv)
    ultimately show ?thesis using Some True by simp
  next
    case False
    with Some assms have "b' = AList.update day (ms @ [s]) b" by (simp add: add_once_def)
    then show ?thesis using Some False by (simp add: update_conv')
  qed
qed

lemma add_once_holds:
  assumes "add_once b day s = Inr b'"
  shows "\<exists>ms. map_of b' day = Some ms \<and> s \<in> set ms"
proof -
  from add_once_map_of [OF assms] obtain ms where
    "map_of b' = (map_of b)(day \<mapsto> (if s \<in> set ms then ms else ms @ [s]))" by blast
  then have "map_of b' day = Some (if s \<in> set ms then ms else ms @ [s])" by simp
  then show ?thesis by (cases "s \<in> set ms") simp_all
qed

lemma add_once_frame:
  assumes "add_once b day s = Inr b'" and "d \<noteq> day"
  shows "map_of b' d = map_of b d"
proof -
  from add_once_map_of [OF assms(1)] obtain ms where
    "map_of b' = (map_of b)(day \<mapsto> (if s \<in> set ms then ms else ms @ [s]))" by blast
  with assms(2) show ?thesis by simp
qed

lemma add_once_grows:
  assumes "add_once b day s = Inr b'"
  shows "grows b b'"
proof (intro allI impI)
  fix d ms
  assume d: "map_of b d = Some ms"
  from add_once_map_of [OF assms] obtain ms0 where
    m0: "map_of b day = Some ms0"
    and m: "map_of b' = (map_of b)(day \<mapsto> (if s \<in> set ms0 then ms0 else ms0 @ [s]))" by blast
  show "\<exists>ms'. map_of b' d = Some ms' \<and> set ms \<subseteq> set ms'"
  proof (cases "d = day")
    case True
    with d m0 have "ms0 = ms" by simp
    with m True show ?thesis by auto
  next
    case False
    with m d show ?thesis by simp
  qed
qed

lemma apply_offset_date:
  assumes "apply_offset ws rec k b = Inr b'"
  shows "date_add_days ws k = Inr (ws + k)"
proof -
  from assms obtain d where d: "date_add_days ws k = Inr d"
    by (cases "date_add_days ws k") (simp_all add: apply_offset_def)
  then have "d = ws + k" by (simp add: date_add_days_def split: if_splits)
  with d show ?thesis by simp
qed

lemma apply_offset_placed:
  assumes "apply_offset ws rec k b = Inr b'"
      and "day_code (weekday_name (ws + k)) \<in> set (byday rec)" and "ws + k \<notin> exdates rec"
  shows "add_once b (weekday_name (ws + k)) (summary rec) = Inr b'"
  using assms apply_offset_date [OF assms(1)] by (simp add: apply_offset_def Let_def)

lemma apply_offset_excluded:
  assumes "apply_offset ws rec k b = Inr b'" and "ws + k \<in> exdates rec"
  shows "b' = b"
  using assms apply_offset_date [OF assms(1)] by (simp add: apply_offset_def Let_def split: if_splits)

lemma apply_offset_grows:
  assumes "apply_offset ws rec k b = Inr b'"
  shows "grows b b'"
proof -
  from apply_offset_cases [OF assms]
  show ?thesis
  proof
    assume "b' = b"
    then show ?thesis by simp
  next
    assume "add_once b (weekday_name (ws + k)) (summary rec) = Inr b'"
    then show ?thesis by (rule add_once_grows)
  qed
qed

lemma grows_trans:
  assumes "grows a b" and "grows b c"
  shows "grows a c"
proof (intro allI impI)
  fix d ms
  assume "map_of a d = Some ms"
  with assms(1) obtain ms1 where 1: "map_of b d = Some ms1" and s1: "set ms \<subseteq> set ms1" by blast
  from assms(2) 1 obtain ms2 where 2: "map_of c d = Some ms2" and s2: "set ms1 \<subseteq> set ms2" by blast
  from 2 s1 s2 show "\<exists>ms'. map_of c d = Some ms' \<and> set ms \<subseteq> set ms'" by blast
qed

lemma for_each_grows:
  assumes "\<forall>x \<in> set xs. \<forall>s s'. f x s = Inr s' \<longrightarrow> grows s s'"
      and "for_each f xs b = Inr b'"
  shows "grows b b'"
proof -
  have "\<forall>x \<in> set xs. \<forall>s s'. grows b s \<longrightarrow> f x s = Inr s' \<longrightarrow> grows b s'"
  proof (rule ballI, rule allI, rule allI, rule impI, rule impI)
    fix x s s'
    assume "x \<in> set xs" and g: "grows b s" and "f x s = Inr s'"
    with assms(1) have "grows s s'" by blast
    with g show "grows b s'" by (rule grows_trans)
  qed
  moreover have "grows b b" by simp
  ultimately show ?thesis using assms(2) by (rule for_each_invariant [where P = "grows b"])
qed

lemma apply_uid_grows:
  assumes "apply_uid ws cands u b = Inr b'"
  shows "grows b b'"
proof (cases "map_of cands u")
  case None
  with assms show ?thesis by (simp add: apply_uid_def)
next
  case (Some rec)
  with assms have l: "for_each (apply_offset ws rec) [0, 1, 2, 3, 4] b = Inr b'"
    by (simp add: apply_uid_def)
  have "\<forall>k \<in> set [0, 1, 2, 3, 4]. \<forall>s s'. apply_offset ws rec k s = Inr s' \<longrightarrow> grows s s'"
    using apply_offset_grows by blast
  then show ?thesis using l by (rule for_each_grows)
qed

lemma apply_uid_places:
  assumes "map_of cands u = Some rec" and "apply_uid ws cands u b = Inr b'"
      and "k \<in> {0, 1, 2, 3, 4}"
      and "day_code (weekday_name (ws + k)) \<in> set (byday rec)" and "ws + k \<notin> exdates rec"
  shows "\<exists>ms. map_of b' (weekday_name (ws + k)) = Some ms \<and> summary rec \<in> set ms"
proof -
  from assms(1,2) have l: "for_each (apply_offset ws rec) [0, 1, 2, 3, 4] b = Inr b'"
    by (simp add: apply_uid_def)
  from assms(3) have "k \<in> set [0, 1, 2, 3, 4]" by simp
  from for_each_split [OF l this] obtain post s1 s2 where
    st: "apply_offset ws rec k s1 = Inr s2" and r: "for_each (apply_offset ws rec) post s2 = Inr b'"
    by blast
  from apply_offset_placed [OF st assms(4,5)]
  have "add_once s1 (weekday_name (ws + k)) (summary rec) = Inr s2" .
  then obtain ms where ms: "map_of s2 (weekday_name (ws + k)) = Some ms" and i: "summary rec \<in> set ms"
    using add_once_holds by blast
  have "\<forall>j \<in> set post. \<forall>s s'. apply_offset ws rec j s = Inr s' \<longrightarrow> grows s s'"
    using apply_offset_grows by blast
  then have "grows s2 b'" using r by (rule for_each_grows)
  with ms obtain ms' where "map_of b' (weekday_name (ws + k)) = Some ms'" and "set ms \<subseteq> set ms'"
    by blast
  with i show ?thesis by blast
qed

lemma weekday_differs:
  assumes "j \<in> {0, 1, 2, 3, 4}" and "k \<in> {0, 1, 2, 3, 4}" and "j \<noteq> k"
  shows "weekday_name (ws + j) \<noteq> weekday_name (ws + k)"
proof -
  from assms(1,2) have "- 4 \<le> j - k \<and> j - k \<le> 4" by auto
  moreover from assms(3) have "j - k \<noteq> 0" by simp
  ultimately have "(j - k) mod 7 \<noteq> 0" by presburger
  then have "((ws + j) - (ws + k)) mod 7 \<noteq> 0" by simp
  then show ?thesis by (simp only: weekday_name_eq_iff not_False_eq_True)
qed

lemma add_once_other:
  assumes "add_once b d x = Inr b'" and "d \<noteq> day \<or> x \<noteq> s"
  shows "holds b' day s = holds b day s"
proof (cases "d = day")
  case False
  with add_once_frame [OF assms(1), of day] show ?thesis by simp
next
  case True
  with assms(2) have x: "x \<noteq> s" by simp
  from add_once_map_of [OF assms(1)] obtain ms where
    m0: "map_of b d = Some ms"
    and m: "map_of b' = (map_of b)(d \<mapsto> (if x \<in> set ms then ms else ms @ [x]))" by blast
  from m have "map_of b' d = Some (if x \<in> set ms then ms else ms @ [x])" by simp
  with m0 x True show ?thesis by auto
qed

lemma apply_offset_step:
  assumes "apply_offset ws rec k b = Inr b'"
  shows "b' = b \<or> (day_code (weekday_name (ws + k)) \<in> set (byday rec) \<and> ws + k \<notin> exdates rec
                   \<and> add_once b (weekday_name (ws + k)) (summary rec) = Inr b')"
  using assms apply_offset_date [OF assms]
  by (simp add: apply_offset_def Let_def split: if_splits)

lemma apply_offset_other:
  assumes "apply_offset ws r j b = Inr b'" and "j \<in> {0, 1, 2, 3, 4}" and "k \<in> {0, 1, 2, 3, 4}"
      and "summary r = s \<longrightarrow> day_code (weekday_name (ws + k)) \<notin> set (byday r) \<or> ws + k \<in> exdates r"
  shows "holds b' (weekday_name (ws + k)) s = holds b (weekday_name (ws + k)) s"
proof -
  from apply_offset_step [OF assms(1)] show ?thesis
  proof
    assume "b' = b"
    then show ?thesis by simp
  next
    assume p: "day_code (weekday_name (ws + j)) \<in> set (byday r) \<and> ws + j \<notin> exdates r
               \<and> add_once b (weekday_name (ws + j)) (summary r) = Inr b'"
    have "weekday_name (ws + j) \<noteq> weekday_name (ws + k) \<or> summary r \<noteq> s"
    proof (cases "j = k")
      case True
      with p assms(4) show ?thesis by blast
    next
      case False
      with assms(2,3) show ?thesis using weekday_differs by blast
    qed
    with p show ?thesis using add_once_other by blast
  qed
qed

lemma apply_uid_other:
  assumes "apply_uid ws cands v b = Inr b'" and "k \<in> {0, 1, 2, 3, 4}"
      and "\<forall>r. map_of cands v = Some r \<and> summary r = s
             \<longrightarrow> day_code (weekday_name (ws + k)) \<notin> set (byday r) \<or> ws + k \<in> exdates r"
  shows "holds b' (weekday_name (ws + k)) s = holds b (weekday_name (ws + k)) s"
proof (cases "map_of cands v")
  case None
  with assms(1) show ?thesis by (simp add: apply_uid_def)
next
  case (Some r)
  let ?day = "weekday_name (ws + k)"
  from Some assms(1) have l: "for_each (apply_offset ws r) [0, 1, 2, 3, 4] b = Inr b'"
    by (simp add: apply_uid_def)
  from Some assms(3) have c: "summary r = s \<longrightarrow> day_code ?day \<notin> set (byday r) \<or> ws + k \<in> exdates r"
    by blast
  have "\<forall>j \<in> set [0, 1, 2, 3, 4]. \<forall>t t'. holds t ?day s = holds b ?day s
          \<longrightarrow> apply_offset ws r j t = Inr t' \<longrightarrow> holds t' ?day s = holds b ?day s"
  proof (rule ballI, rule allI, rule allI, rule impI, rule impI)
    fix j t t'
    assume j: "j \<in> set [0, 1, 2, 3, 4]" and p: "holds t ?day s = holds b ?day s"
      and st: "apply_offset ws r j t = Inr t'"
    from j have "j \<in> {0, 1, 2, 3, 4}" by simp
    from apply_offset_other [OF st this assms(2) c] p
    show "holds t' ?day s = holds b ?day s" by simp
  qed
  then show ?thesis using _ l
    by (rule for_each_invariant [where P = "\<lambda>t. holds t ?day s = holds b ?day s"]) simp
qed

text \<open>
  Claim C2, as amended. Let the Recurrence Applier run, and return, with a token list
  that holds a UID \<open>u\<close> of the candidate table. For each of the 5 days of the window
  whose two-letter code is in \<open>candidate[u].byday\<close> and whose date is not in
  \<open>candidate[u].exdates\<close>, the candidate's summary is in that day's bucket afterwards.
  For a day of the window whose date is in \<open>candidate[u].exdates\<close>, the run does not put
  the summary there on behalf of \<open>u\<close>: unless another applied candidate with the same
  summary places it on that day, the summary is in that day's bucket after the run
  exactly when it was there before the run, for instance from an explicit occurrence.
\<close>

theorem apply_exclusion_law:
  assumes "map_of cands u = Some rec" and "inc \<noteq> []" and "u \<in> set (split_bars inc)"
      and "apply_selected ws cands inc b = Inr b'"
      and "k \<in> {0, 1, 2, 3, 4}" and "day = weekday_name (ws + k)"
  shows "(day_code day \<in> set (byday rec) \<and> ws + k \<notin> exdates rec
            \<longrightarrow> (\<exists>meetings. map_of b' day = Some meetings \<and> summary rec \<in> set meetings))
         \<and> (ws + k \<in> exdates rec
             \<and> (\<forall>v r. v \<in> set (split_bars inc) \<and> v \<noteq> u \<and> map_of cands v = Some r
                       \<and> summary r = summary rec
                       \<longrightarrow> day_code day \<notin> set (byday r) \<or> ws + k \<in> exdates r)
            \<longrightarrow> (\<exists>meetings. map_of b' day = Some meetings \<and> summary rec \<in> set meetings)
                = (\<exists>meetings. map_of b day = Some meetings \<and> summary rec \<in> set meetings))"
proof (rule conjI; rule impI)
  assume h: "day_code day \<in> set (byday rec) \<and> ws + k \<notin> exdates rec"
  from assms(2,4) have l: "for_each (apply_uid ws cands) (split_bars inc) b = Inr b'"
    by (simp add: apply_selected_def)
  from for_each_split [OF l assms(3)] obtain post s1 s2 where
    st: "apply_uid ws cands u s1 = Inr s2" and r: "for_each (apply_uid ws cands) post s2 = Inr b'"
    by blast
  from h have "day_code (weekday_name (ws + k)) \<in> set (byday rec)" and "ws + k \<notin> exdates rec"
    unfolding assms(6) by simp_all
  from apply_uid_places [OF assms(1) st assms(5) this]
  obtain ms where ms: "map_of s2 day = Some ms" and i: "summary rec \<in> set ms"
    unfolding assms(6) by blast
  have "\<forall>v \<in> set post. \<forall>s s'. apply_uid ws cands v s = Inr s' \<longrightarrow> grows s s'"
    using apply_uid_grows by blast
  then have "grows s2 b'" using r by (rule for_each_grows)
  with ms obtain ms' where "map_of b' day = Some ms'" and "set ms \<subseteq> set ms'" by blast
  with i show "\<exists>meetings. map_of b' day = Some meetings \<and> summary rec \<in> set meetings" by blast
next
  assume h: "ws + k \<in> exdates rec
             \<and> (\<forall>v r. v \<in> set (split_bars inc) \<and> v \<noteq> u \<and> map_of cands v = Some r
                       \<and> summary r = summary rec
                       \<longrightarrow> day_code day \<notin> set (byday r) \<or> ws + k \<in> exdates r)"
  from assms(2,4) have l: "for_each (apply_uid ws cands) (split_bars inc) b = Inr b'"
    by (simp add: apply_selected_def)
  let ?s = "summary rec"
  have c: "\<forall>r. map_of cands v = Some r \<and> summary r = ?s
               \<longrightarrow> day_code (weekday_name (ws + k)) \<notin> set (byday r) \<or> ws + k \<in> exdates r"
    if v: "v \<in> set (split_bars inc)" for v
  proof (cases "v = u")
    case True
    from h have "ws + k \<in> exdates rec" by (rule conjunct1)
    with True assms(1) show ?thesis by simp
  next
    case False
    from h have "\<forall>r. v \<in> set (split_bars inc) \<and> v \<noteq> u \<and> map_of cands v = Some r
                     \<and> summary r = summary rec
                     \<longrightarrow> day_code day \<notin> set (byday r) \<or> ws + k \<in> exdates r"
      by blast
    with v False show ?thesis unfolding assms(6) by simp
  qed
  have "\<forall>v \<in> set (split_bars inc). \<forall>t t'. holds t day ?s = holds b day ?s
          \<longrightarrow> apply_uid ws cands v t = Inr t' \<longrightarrow> holds t' day ?s = holds b day ?s"
  proof (rule ballI, rule allI, rule allI, rule impI, rule impI)
    fix v t t'
    assume v: "v \<in> set (split_bars inc)" and p: "holds t day ?s = holds b day ?s"
      and st: "apply_uid ws cands v t = Inr t'"
    from apply_uid_other [OF st assms(5) c [OF v]]
    have "holds t' day ?s = holds t day ?s" unfolding assms(6) .
    with p show "holds t' day ?s = holds b day ?s" by (rule trans [rotated])
  qed
  then show "holds b' day ?s = holds b day ?s" using _ l
    by (rule for_each_invariant [where P = "\<lambda>t. holds t day ?s = holds b day ?s"]) (rule refl)
qed

theorem apply_exclusion_law_witness:
  "apply_selected 738893 [(''u1'', ex_sync_candidate)] ''u1||nope||u1'' empty_board
     = Inr ex_wednesday_board
   \<and> (\<exists>meetings. map_of ex_wednesday_board ''Wednesday'' = Some meetings
                   \<and> summary ex_sync_candidate \<in> set meetings)
   \<and> \<not> (\<exists>meetings. map_of ex_wednesday_board ''Monday'' = Some meetings
                     \<and> summary ex_sync_candidate \<in> set meetings)"
proof -
  let ?cands = "[(''u1'', ex_sync_candidate)]"
  have m: "map_of ?cands ''u1'' = Some ex_sync_candidate" by simp
  have n: "''u1||nope||u1'' \<noteq> []" by simp
  have sp: "split_bars ''u1||nope||u1'' = [''u1'', ''nope'', ''u1'']" by simp
  have t: "''u1'' \<in> set (split_bars ''u1||nope||u1'')" unfolding sp by simp
  have k2: "(2::int) \<in> {0, 1, 2, 3, 4}" by simp
  have d2: "''Wednesday'' = weekday_name (738893 + 2)" by (simp add: date_defs)
  have k0: "(0::int) \<in> {0, 1, 2, 3, 4}" by simp
  have d0: "''Monday'' = weekday_name (738893 + 0)" by (simp add: date_defs)
  have c2: "day_code ''Wednesday'' \<in> set (byday ex_sync_candidate)
            \<and> 738893 + 2 \<notin> exdates ex_sync_candidate"
    by (simp add: ex_sync_candidate_def text_defs)
  have "map_of ?cands v \<noteq> Some r" if "v \<noteq> ''u1''" for v r
    using that by simp
  then have c0: "738893 + 0 \<in> exdates ex_sync_candidate
            \<and> (\<forall>v r. v \<in> set (split_bars ''u1||nope||u1'') \<and> v \<noteq> ''u1'' \<and> map_of ?cands v = Some r
                      \<and> summary r = summary ex_sync_candidate
                      \<longrightarrow> day_code ''Monday'' \<notin> set (byday r) \<or> 738893 + 0 \<in> exdates r)"
    by (simp add: ex_sync_candidate_def)
  from apply_exclusion_law [OF m n t ex_sync_applied_among_others k2 d2] c2
  have p: "\<exists>meetings. map_of ex_wednesday_board ''Wednesday'' = Some meetings
                      \<and> summary ex_sync_candidate \<in> set meetings"
    by blast
  have e: "\<not> (\<exists>meetings. map_of empty_board ''Monday'' = Some meetings
                        \<and> summary ex_sync_candidate \<in> set meetings)"
    by (simp add: empty_board_def)
  from apply_exclusion_law [OF m n t ex_sync_applied_among_others k0 d0] c0
  have "(\<exists>meetings. map_of ex_wednesday_board ''Monday'' = Some meetings
                    \<and> summary ex_sync_candidate \<in> set meetings)
        = (\<exists>meetings. map_of empty_board ''Monday'' = Some meetings
                      \<and> summary ex_sync_candidate \<in> set meetings)"
    by blast
  with e have q: "\<not> (\<exists>meetings. map_of ex_wednesday_board ''Monday'' = Some meetings
                        \<and> summary ex_sync_candidate \<in> set meetings)"
    by simp
  from ex_sync_applied_among_others p q show ?thesis by (intro conjI)
qed

text \<open>
  The claim as stated fails on its second half. When the series starts on the window's
  Monday and that Monday is also an excluded date, the classifier has already put the
  summary in Monday's bucket as an explicit occurrence; the candidate is not fully
  covered, stays in the table, and after it is applied the summary is in the bucket of
  a date of its \<open>exdates\<close>.
\<close>

theorem excluded_day_keeps_explicit_entry:
  "classify dt_date 738893 738897 [ex_sync_first]
     = Inr (ex_monday_board, [(''u1'', ex_sync_candidate)])
   \<and> reconcile ex_monday_board [(''u1'', ex_sync_candidate)] = [(''u1'', ex_sync_candidate)]
   \<and> apply_selected 738893 [(''u1'', ex_sync_candidate)] ''u1'' ex_monday_board = Inr ex_sync_board
   \<and> 738893 \<in> exdates ex_sync_candidate
   \<and> weekday_name 738893 = ''Monday''
   \<and> map_of ex_sync_board ''Monday'' = Some [''Sync'']
   \<and> summary ex_sync_candidate = ''Sync''"
  by (simp add: ex_sync_first_alone_classified ex_sync_first_reconciled ex_sync_first_applied)
     (simp add: ex_sync_candidate_def ex_sync_board_def date_defs)

section \<open>The Recurrence Applier outside a Monday to Friday window\<close>

lemma add_once_keys:
  assumes "add_once b day s = Inr b'"
  shows "map fst b' = map fst b"
proof (cases "map_of b day")
  case None
  with assms show ?thesis by (simp add: add_once_def)
next
  case (Some ms)
  then have "(day, ms) \<in> set b" by (rule map_of_SomeD)
  then have k: "day \<in> set (map fst b)" by force
  show ?thesis
  proof (cases "s \<in> set ms")
    case True
    with Some assms show ?thesis by (simp add: add_once_def)
  next
    case False
    with Some assms have "b' = AList.update day (ms @ [s]) b" by (simp add: add_once_def)
    with k show ?thesis by (simp only: update_keys if_True)
  qed
qed

lemma apply_offset_keys:
  assumes "apply_offset ws rec k b = Inr b'"
  shows "map fst b' = map fst b"
proof -
  from apply_offset_cases [OF assms] show ?thesis
  proof
    assume "b' = b"
    then show ?thesis by simp
  next
    assume "add_once b (weekday_name (ws + k)) (summary rec) = Inr b'"
    then show ?thesis by (rule add_once_keys)
  qed
qed

lemma apply_offset_error:
  assumes "apply_offset ws rec k b = Inl e" and "0 < ws + k" and "ws + k \<le> MAXORDINAL"
  shows "e = KeyError"
proof -
  from assms(2,3) have "date_add_days ws k = Inr (ws + k)" by (simp add: date_add_days_def)
  with assms(1) have "add_once b (weekday_name (ws + k)) (summary rec) = Inl e"
    by (simp add: apply_offset_def Let_def split: if_splits)
  then show ?thesis by (simp add: add_once_def split: option.splits if_splits)
qed

lemma apply_offset_weekend:
  assumes "0 < ws + k" and "ws + k \<le> MAXORDINAL"
      and "day_code (weekday_name (ws + k)) \<in> set (byday rec)" and "ws + k \<notin> exdates rec"
      and "map_of b (weekday_name (ws + k)) = None"
  shows "apply_offset ws rec k b = Inl KeyError"
  using assms by (simp add: apply_offset_def date_add_days_def Let_def add_once_def)

lemma weekend_not_a_key:
  assumes "map fst b = map fst empty_board" and "day \<in> {''Saturday'', ''Sunday''}"
  shows "map_of b day = None"
proof -
  from assms(2) have "day \<notin> set (map fst empty_board)" by (auto simp: empty_board_def)
  with assms(1) have "day \<notin> fst ` set b" by (metis set_map)
  then show ?thesis by (simp add: map_of_eq_None_iff)
qed

lemma window_has_weekend:
  assumes "weekday_name A \<noteq> ''Sunday''"
  shows "\<exists>k \<in> {0, 1, 2, 3, 4}. weekday_name (A + 1 + k) \<in> {''Saturday'', ''Sunday''}"
proof -
  from assms have n6: "(A + 6) mod 7 \<noteq> 6"
    unfolding weekday_name_Sunday by presburger
  have w: "weekday_name (A + 1 + k) = weekday_names ! nat (((A + 6) mod 7 + (1 + k)) mod 7)" for k
  proof -
    have "(A + 1 + k + 6) mod 7 = ((A + 6) + (1 + k)) mod 7" by (simp add: algebra_simps)
    also have "\<dots> = ((A + 6) mod 7 + (1 + k)) mod 7" by (simp only: mod_add_left_eq)
    finally show ?thesis by (simp only: weekday_name_def)
  qed
  from mod7_cases [of "A + 6"] n6
  consider "(A + 6) mod 7 = 0" | "(A + 6) mod 7 = 1" | "(A + 6) mod 7 = 2"
    | "(A + 6) mod 7 = 3" | "(A + 6) mod 7 = 4" | "(A + 6) mod 7 = 5" by blast
  then show ?thesis
  proof cases
    case 1
    then have "weekday_name (A + 1 + 4) = ''Saturday''" unfolding w by (simp add: weekday_names_def)
    then show ?thesis by (intro bexI [where x = 4]) simp_all
  next
    case 2
    then have "weekday_name (A + 1 + 3) = ''Saturday''" unfolding w by (simp add: weekday_names_def)
    then show ?thesis by (intro bexI [where x = 3]) simp_all
  next
    case 3
    then have "weekday_name (A + 1 + 2) = ''Saturday''" unfolding w by (simp add: weekday_names_def)
    then show ?thesis by (intro bexI [where x = 2]) simp_all
  next
    case 4
    then have "weekday_name (A + 1 + 1) = ''Saturday''" unfolding w by (simp add: weekday_names_def)
    then show ?thesis by (intro bexI [where x = 1]) simp_all
  next
    case 5
    then have "weekday_name (A + 1 + 0) = ''Saturday''" unfolding w by (simp add: weekday_names_def)
    then show ?thesis by (intro bexI [where x = 0]) simp_all
  next
    case 6
    then have "weekday_name (A + 1 + 0) = ''Sunday''" unfolding w by (simp add: weekday_names_def)
    then show ?thesis by (intro bexI [where x = 0]) simp_all
  qed
qed

lemma apply_uid_weekend:
  assumes "get_week_range_from_sunday A = Inr (ws, we)"
      and "map fst b = map fst empty_board"
      and "map_of cands u = Some rec"
      and "k \<in> {0, 1, 2, 3, 4}" and "weekday_name (ws + k) \<in> {''Saturday'', ''Sunday''}"
      and "day_code (weekday_name (ws + k)) \<in> set (byday rec)" and "ws + k \<notin> exdates rec"
  shows "apply_uid ws cands u b = Inl KeyError"
proof -
  from assms(1) have r: "0 < ws \<and> ws + 4 \<le> MAXORDINAL"
    by (auto simp: get_week_range_from_sunday_def date_add_days_def split: if_splits)
  let ?I = "\<lambda>s. map fst s = map fst empty_board"
  have k: "k \<in> set [0, 1, 2, 3, 4]" using assms(4) by simp
  have e: "\<forall>s. ?I s \<longrightarrow> apply_offset ws rec k s = Inl KeyError"
  proof (intro allI impI)
    fix s :: board
    assume "?I s"
    then have "map_of s (weekday_name (ws + k)) = None" using assms(5) by (rule weekend_not_a_key)
    moreover from r assms(4) have "0 < ws + k" and "ws + k \<le> MAXORDINAL" by auto
    ultimately show "apply_offset ws rec k s = Inl KeyError"
      using assms(6,7) by (simp add: apply_offset_weekend)
  qed
  have p: "\<forall>j \<in> set [0, 1, 2, 3, 4]. \<forall>s s'. ?I s \<longrightarrow> apply_offset ws rec j s = Inr s' \<longrightarrow> ?I s'"
  proof (intro ballI allI impI)
    fix j s s'
    assume "?I s" and "apply_offset ws rec j s = Inr s'"
    then show "?I s'" using apply_offset_keys by simp
  qed
  have q: "\<forall>j \<in> set [0, 1, 2, 3, 4]. \<forall>s e'. ?I s \<longrightarrow> apply_offset ws rec j s = Inl e' \<longrightarrow> e' = KeyError"
  proof (intro ballI allI impI)
    fix j s e'
    assume j: "j \<in> set [0, 1, 2, 3, 4]" and "apply_offset ws rec j s = Inl e'"
    moreover from r j have "0 < ws + j" and "ws + j \<le> MAXORDINAL" by auto
    ultimately show "e' = KeyError" by (simp add: apply_offset_error)
  qed
  from for_each_raises [where I = ?I, OF k e p q assms(2)] assms(3)
  show ?thesis by (simp add: apply_uid_def)
qed

text \<open>
  Claim C10. The Recurrence Applier is not total over all anchor dates. For every anchor
  that is not a Sunday and whose window the calculator returns, one of the 5 days of the
  window is a Saturday or a Sunday, and applying any candidate whose BYDAY holds that
  day's code and whose \<open>exdates\<close> do not hold its date raises \<open>KeyError\<close> on a board with
  the keys Monday to Friday: the weekend day is not skipped.
\<close>

theorem applier_raises_on_weekend:
  assumes "get_week_range_from_sunday A = Inr (ws, we)" and "weekday_name A \<noteq> ''Sunday''"
      and "map fst b = map fst empty_board"
  shows "\<exists>k \<in> {0, 1, 2, 3, 4}.
           weekday_name (ws + k) \<in> {''Saturday'', ''Sunday''}
           \<and> (\<forall>cands u rec.
                 map_of cands u = Some rec \<and> day_code (weekday_name (ws + k)) \<in> set (byday rec)
                 \<and> ws + k \<notin> exdates rec
                 \<longrightarrow> apply_uid ws cands u b = Inl KeyError)"
proof -
  from assms(1) have ws: "ws = A + 1"
    by (auto simp: get_week_range_from_sunday_def date_add_days_def split: if_splits)
  from window_has_weekend [OF assms(2)] obtain k where
    k: "k \<in> {0, 1, 2, 3, 4}" and w: "weekday_name (ws + k) \<in> {''Saturday'', ''Sunday''}"
    unfolding ws by blast
  have "\<forall>cands u rec.
          map_of cands u = Some rec \<and> day_code (weekday_name (ws + k)) \<in> set (byday rec)
          \<and> ws + k \<notin> exdates rec
          \<longrightarrow> apply_uid ws cands u b = Inl KeyError"
    using apply_uid_weekend [OF assms(1,3) _ k w] by blast
  with k w show ?thesis by blast
qed

theorem applier_raises_on_weekend_witness:
  "get_week_range_from_sunday 738893 = Inr (738894, 738898)
   \<and> weekday_name 738893 = ''Monday''
   \<and> weekday_name (738894 + 4) = ''Saturday''
   \<and> apply_uid 738894 [(''u2'', ex_saturday_candidate)] ''u2'' empty_board = Inl KeyError"
proof -
  have w: "get_week_range_from_sunday 738893 = Inr (738894, 738898)" by (simp add: date_defs)
  have m: "weekday_name 738893 = ''Monday''" by (simp add: date_defs)
  then have ns: "weekday_name 738893 \<noteq> ''Sunday''" by simp
  have sa: "weekday_name (738894 + 4) = ''Saturday''" by (simp add: date_defs)
  from applier_raises_on_weekend [OF w ns refl] obtain k where
    k: "k \<in> {0, 1, 2, 3, 4}" and e: "weekday_name (738894 + k) \<in> {''Saturday'', ''Sunday''}"
    and a: "\<forall>cands u rec.
              map_of cands u = Some rec \<and> day_code (weekday_name (738894 + k)) \<in> set (byday rec)
              \<and> 738894 + k \<notin> exdates rec
              \<longrightarrow> apply_uid 738894 cands u empty_board = Inl KeyError"
    by blast
  from k e have k4: "k = 4" by (auto simp: date_defs)
  have "map_of [(''u2'', ex_saturday_candidate)] ''u2'' = Some ex_saturday_candidate
        \<and> day_code (weekday_name (738894 + k)) \<in> set (byday ex_saturday_candidate)
        \<and> 738894 + k \<notin> exdates ex_saturday_candidate"
    unfolding k4 by (simp add: ex_saturday_candidate_def date_defs text_defs)
  with a have "apply_uid 738894 [(''u2'', ex_saturday_candidate)] ''u2'' empty_board = Inl KeyError"
    by blast
  with w m sa show ?thesis by (intro conjI)
qed


end
